theory Spec2Isabelle
  imports Complex_Main "HOL-Library.Word" "HOL-Library.Multiset" "HOL-Library.Product_Lexorder"
    "HOL-Library.Log_Nat"
begin

unbundle bit_operations_syntax

section \<open>Data model of \<open>hash_match.py\<close>\<close>

text \<open>
  Symbols and matrix cells are NumPy \<open>uint16\<close> values: 16-bit words whose stores wrap
  around. A two-dimensional \<open>uint16\<close> array is its shape together with a store from index
  pairs to cells; only the cells inside the shape belong to the array.

  Exceptions of the Python code are values of \<open>error\<close>. A score is a NumPy float: a finite
  binary64 value (kept as the rational number it denotes), \<open>inf\<close> (positive over zero) or
  \<open>nan\<close> (zero over zero); NumPy scalars do not raise on a division by zero.
\<close>

type_synonym u16 = "16 word"

datatype error = IndexError | ValueError | RuntimeError

datatype npfloat = Finite rat | PosInf | NaN

text \<open>Sequencing: the first exception raised ends the computation.\<close>

definition bind :: "error + 'a \<Rightarrow> ('a \<Rightarrow> error + 'b) \<Rightarrow> error + 'b" where
  "bind m f = (case m of Inl e \<Rightarrow> Inl e | Inr x \<Rightarrow> f x)"

record ndarray2 =
  shape0 :: nat
  shape1 :: nat
  cell :: "nat \<Rightarrow> nat \<Rightarrow> u16"

text \<open>\<open>np.zeros(shape, uint16)\<close>; \<open>np.empty\<close> is modelled by the same array.\<close>

definition np_zeros :: "nat \<Rightarrow> nat \<Rightarrow> ndarray2" where
  "np_zeros r c = \<lparr>shape0 = r, shape1 = c, cell = (\<lambda>i j. 0)\<rparr>"

text \<open>An array literal given by its rows (used to write down concrete matrices).\<close>

definition matrix_of :: "u16 list list \<Rightarrow> ndarray2" where
  "matrix_of rs = \<lparr>shape0 = length rs, shape1 = (case rs of [] \<Rightarrow> 0 | r # _ \<Rightarrow> length r),
                   cell = (\<lambda>i j. rs ! i ! j)\<rparr>"

definition set_cell :: "ndarray2 \<Rightarrow> nat \<Rightarrow> nat \<Rightarrow> u16 \<Rightarrow> ndarray2" where
  "set_cell A i j v = A\<lparr>cell := (cell A)(i := (cell A i)(j := v))\<rparr>"

text \<open>
  A Python float is an IEEE 754 binary64 value, kept in the model as the rational number it
  denotes. An arithmetic operation on floats returns the exact result rounded to the nearest
  number with a significand of 53 bits, ties going to the even significand: \<open>fl64\<close>, where
  \<open>ilog2 x\<close> is the exponent \<open>floor(log2(x))\<close> of a positive \<open>x\<close>. The exponent is not
  bounded in the model: overflow to \<open>inf\<close> is left out, and a result below the least normal
  binary64 value \<open>2 ** -1022\<close> is rounded with 53 bits where the code keeps fewer. A
  rational \<open>q\<close> is a float when \<open>fl64 q = q\<close>. An integer below \<open>2 ** 53\<close> in magnitude is
  converted to a float without rounding.
\<close>

definition round_half_even :: "rat \<Rightarrow> int" where
  "round_half_even x =
     (let f = \<lfloor>x\<rfloor> in
      if x - of_int f < 1 / 2 then f
      else if 1 / 2 < x - of_int f then f + 1
      else if even f then f else f + 1)"

definition ilog2 :: "rat \<Rightarrow> int" where
  "ilog2 x =
     (let k = bitlen (fst (quotient_of x)) - bitlen (snd (quotient_of x))
      in if 2 powi k \<le> x then k else k - 1)"

definition fl64 :: "rat \<Rightarrow> rat" where
  "fl64 x =
     (if x = 0 then 0
      else let e = ilog2 \<bar>x\<bar> - 52
           in sgn x * of_int (round_half_even (\<bar>x\<bar> / 2 powi e)) * 2 powi e)"

text \<open>
  Division of a non-negative integer by \<open>float(n)\<close> for a non-negative integer \<open>n\<close> (both
  far below \<open>2 ** 53\<close>, so that their conversion to a float is exact), and the comparisons
  \<open><\<close> and \<open><=\<close> of two such floats (false when \<open>nan\<close> is involved).
\<close>

definition np_div :: "nat \<Rightarrow> nat \<Rightarrow> npfloat" where
  "np_div a b =
     (if b = 0 then (if a = 0 then NaN else PosInf) else Finite (fl64 (of_nat a / of_nat b)))"

fun np_less :: "npfloat \<Rightarrow> npfloat \<Rightarrow> bool" where
  "np_less (Finite a) (Finite b) = (a < b)"
| "np_less (Finite a) PosInf = True"
| "np_less _ _ = False"

fun np_le :: "npfloat \<Rightarrow> npfloat \<Rightarrow> bool" where
  "np_le (Finite a) (Finite b) = (a \<le> b)"
| "np_le (Finite a) PosInf = True"
| "np_le PosInf PosInf = True"
| "np_le _ _ = False"

text \<open>
  Loop counters declared \<open>numba.uint16\<close> hold the counter modulo \<open>2 ^ 16\<close>.
\<close>

definition u16_index :: "nat \<Rightarrow> nat" where
  "u16_index k = unat (of_nat k :: u16)"

section \<open>The bits-set table\<close>

text \<open>
  \<open>bits_set[i] = (i & 1) + bits_set[i/2]\<close>, filled for \<open>i\<close> from \<open>0\<close> upwards over a table of
  zeros: entry \<open>i div 2\<close> is final when entry \<open>i\<close> is computed, and entry \<open>0\<close> is \<open>0 + 0\<close>.
\<close>

fun bits_set :: "nat \<Rightarrow> nat" where
  "bits_set i = (if i = 0 then 0 else i mod 2 + bits_set (i div 2))"

declare bits_set.simps [simp del]

text \<open>The table lookup \<open>bits_set[v]\<close> for a \<open>uint16\<close> index, read as a \<open>uint16\<close> entry.\<close>

definition bits_set_at :: "u16 \<Rightarrow> u16" where
  "bits_set_at v = of_nat (bits_set (unat v))"

section \<open>Conversion between integers and bit vectors\<close>

text \<open>
  \<open>np.array\<close> of a list of rows is a two-dimensional array, except that the empty list
  gives a one-dimensional array of shape \<open>(0,)\<close>.
\<close>

datatype int_array = Array1D "int list" | Array2D "int list list"

definition np_array :: "int list list \<Rightarrow> int_array" where
  "np_array rs = (if rs = [] then Array1D [] else Array2D rs)"

definition N_BITS :: nat where
  "N_BITS = 16"

definition ints_to_vectors :: "int list \<Rightarrow> int_array" where
  "ints_to_vectors int_sequence =
     np_array (map (\<lambda>n. map (\<lambda>i. drop_bit i n AND 1) [0..<N_BITS]) int_sequence)"

text \<open>
  \<open>(vectors * 2 ** (np.arange(vectors.shape[1]) * vectors)).sum(axis=1)\<close>: reading
  \<open>shape[1]\<close> of a one-dimensional array raises \<open>IndexError\<close>. The entries are the bits
  \<open>0\<close> and \<open>1\<close>, so the exponents are natural numbers.
\<close>

definition vectors_to_ints :: "int_array \<Rightarrow> error + int list" where
  "vectors_to_ints vectors =
     (case vectors of
        Array1D _ \<Rightarrow> Inl IndexError
      | Array2D rs \<Rightarrow>
          Inr (map (\<lambda>v. sum_list (map (\<lambda>k. v ! k * 2 ^ nat (int k * v ! k)) [0..<length v])) rs))"

section \<open>Pairwise bit distance\<close>

text \<open>
  \<open>int_dist\<close> fills the pre-allocated \<open>output\<close> cell by cell; \<open>m\<close> and \<open>n\<close> are \<open>uint16\<close>
  locals. Numba does not check bounds; the loops stay inside \<open>output\<close> when its shape is
  \<open>(len(x), len(y))\<close>.
\<close>

definition int_dist :: "u16 list \<Rightarrow> u16 list \<Rightarrow> ndarray2 \<Rightarrow> ndarray2" where
  "int_dist x y output =
     foldl (\<lambda>out m. foldl (\<lambda>out n.
              set_cell out (u16_index m) (u16_index n)
                (bits_set_at (x ! u16_index m XOR y ! u16_index n)))
            out [0..<length y])
       output [0..<length x]"

section \<open>Dynamic time warping\<close>

text \<open>
  One iteration of the inner loop of \<open>dtw_core\<close>, for the loop indices \<open>i\<close> and \<open>j\<close>. The
  state is the pair of the distance matrix \<open>D\<close> and \<open>path_length\<close>. Numba evaluates the
  sums in the guards in 64-bit arithmetic, so they do not wrap; the stores into the
  \<open>uint16\<close> arrays do.
\<close>

definition dtw_step :: "u16 \<Rightarrow> nat \<Rightarrow> nat \<Rightarrow> ndarray2 \<times> ndarray2 \<Rightarrow> ndarray2 \<times> ndarray2" where
  "dtw_step pen i j s =
     (let D = fst s; path_length = snd s in
      if unat (cell D i j) \<le> unat (cell D i (j + 1)) + unat pen
         \<and> unat (cell D i j) \<le> unat (cell D (i + 1) j) + unat pen
      then (set_cell D (i + 1) (j + 1) (cell D (i + 1) (j + 1) + cell D i j),
            set_cell path_length (i + 1) (j + 1)
              (cell path_length (i + 1) (j + 1) + (cell path_length i j + 1)))
      else if unat (cell D i (j + 1)) \<le> unat (cell D (i + 1) j)
         \<and> unat (cell D i (j + 1)) + unat pen \<le> unat (cell D i j)
      then (set_cell D (i + 1) (j + 1) (cell D (i + 1) (j + 1) + (cell D i (j + 1) + pen)),
            set_cell path_length (i + 1) (j + 1)
              (cell path_length (i + 1) (j + 1) + (cell path_length i (j + 1) + 1)))
      else if unat (cell D (i + 1) j) \<le> unat (cell D i (j + 1))
         \<and> unat (cell D (i + 1) j) + unat pen \<le> unat (cell D i j)
      then (set_cell D (i + 1) (j + 1) (cell D (i + 1) (j + 1) + (cell D (i + 1) j + pen)),
            set_cell path_length (i + 1) (j + 1)
              (cell path_length (i + 1) (j + 1) + (cell path_length (i + 1) j + 1)))
      else (D, path_length))"

definition dtw_core :: "ndarray2 \<Rightarrow> u16 \<Rightarrow> ndarray2 \<Rightarrow> ndarray2 \<times> ndarray2" where
  "dtw_core D pen path_length =
     foldl (\<lambda>s i. foldl (\<lambda>s j. dtw_step pen (u16_index i) (u16_index j) s) s
                     [0..<shape1 D - 1])
       (D, path_length) [0..<shape0 D - 1]"

text \<open>
  The product \<open>gully * min(rows, cols)\<close> is a product of floats (the number of rows or
  columns of an array is far below \<open>2 ** 53\<close>), rounded by \<open>fl64\<close>.
  Python's \<open>int\<close> of a float truncates towards zero; a slice \<open>a[g:]\<close> starts at the
  normalised index; an index \<open>a[k]\<close> counts from the end when negative and raises
  \<open>IndexError\<close> out of range. \<open>np.argmin\<close> is the first position of the least entry and
  raises \<open>ValueError\<close> on an empty array.
\<close>

definition py_int :: "rat \<Rightarrow> int" where
  "py_int q = (if 0 \<le> q then \<lfloor>q\<rfloor> else \<lceil>q\<rceil>)"

definition slice_start :: "int \<Rightarrow> nat \<Rightarrow> nat" where
  "slice_start g n = (if g < 0 then nat (int n + g) else min (nat g) n)"

definition py_index :: "int \<Rightarrow> nat \<Rightarrow> error + nat" where
  "py_index k n =
     (let k' = (if k < 0 then k + int n else k)
      in if 0 \<le> k' \<and> k' < int n then Inr (nat k') else Inl IndexError)"

fun argmin_from :: "nat \<Rightarrow> u16 \<Rightarrow> nat \<Rightarrow> u16 list \<Rightarrow> nat" where
  "argmin_from best b k [] = best"
| "argmin_from best b k (x # xs) =
     (if x < b then argmin_from k x (k + 1) xs else argmin_from best b (k + 1) xs)"

definition argmin :: "u16 list \<Rightarrow> error + nat" where
  "argmin xs = (case xs of [] \<Rightarrow> Inl ValueError | x # ys \<Rightarrow> Inr (argmin_from 0 x 1 ys))"

text \<open>
  The endpoint search of \<open>dtw\<close> on the relaxed matrix (the lines from the computation of
  the integer \<open>gully\<close> to the choice between the two candidates): it returns the indices
  \<open>(i, j)\<close> at which the score is read.
\<close>

definition dtw_endpoint :: "ndarray2 \<Rightarrow> rat \<Rightarrow> error + (nat \<times> nat)" where
  "dtw_endpoint D gully =
     (let g = py_int (fl64 (gully * of_nat (min (shape0 D) (shape1 D)))) in
      if shape1 D = 0 then Inl IndexError else
      bind (argmin (map (\<lambda>k. cell D k (shape1 D - 1)) [slice_start g (shape0 D)..<shape0 D]))
        (\<lambda>a.
      if shape0 D = 0 then Inl IndexError else
      bind (argmin (map (\<lambda>k. cell D (shape0 D - 1) k) [slice_start g (shape1 D)..<shape1 D]))
        (\<lambda>b.
      bind (py_index (int b + g) (shape1 D)) (\<lambda>j.
      bind (py_index (int a + g) (shape0 D)) (\<lambda>i.
      if unat (cell D (shape0 D - 1) j) > unat (cell D i (shape1 D - 1))
      then Inr (i, shape1 D - 1)
      else Inr (shape0 D - 1, j))))))"

definition dtw :: "ndarray2 \<Rightarrow> rat \<Rightarrow> u16 \<Rightarrow> error + npfloat" where
  "dtw distance_matrix gully penalty =
     (let s = dtw_core distance_matrix penalty
                (np_zeros (shape0 distance_matrix) (shape1 distance_matrix));
          D = fst s; path_length = snd s
      in bind (dtw_endpoint D gully)
           (\<lambda>(i, j). Inr (np_div (unat (cell D i j)) (unat (cell path_length i j)))))"

section \<open>Keogh envelopes and lower bound\<close>

text \<open>
  \<open>scipy.ndimage\<close>'s one-dimensional maximum and minimum filters with their default
  arguments (\<open>mode='reflect'\<close>, \<open>origin=0\<close>): entry \<open>i\<close> of the result is the greatest
  (least) of the \<open>size\<close> entries at the positions \<open>i - size div 2, ..., i - size div 2 + size - 1\<close>
  of the input extended by reflection about its edges (\<open>d c b a | a b c d | d c b a\<close>). A size
  below one raises \<open>RuntimeError\<close>.
\<close>

definition reflect_index :: "nat \<Rightarrow> int \<Rightarrow> nat" where
  "reflect_index n k =
     (let m = k mod (2 * int n) in if m < int n then nat m else nat (2 * int n - 1 - m))"

definition filter_window :: "u16 list \<Rightarrow> nat \<Rightarrow> nat \<Rightarrow> u16 list" where
  "filter_window x sz i =
     map (\<lambda>k. x ! reflect_index (length x) (int i - int (sz div 2) + int k)) [0..<sz]"

definition maximum_filter1d :: "u16 list \<Rightarrow> int \<Rightarrow> error + u16 list" where
  "maximum_filter1d x sz =
     (if sz < 1 then Inl RuntimeError
      else Inr (map (\<lambda>i. let w = filter_window x (nat sz) i in foldl max (hd w) (tl w))
                  [0..<length x]))"

definition minimum_filter1d :: "u16 list \<Rightarrow> int \<Rightarrow> error + u16 list" where
  "minimum_filter1d x sz =
     (if sz < 1 then Inl RuntimeError
      else Inr (map (\<lambda>i. let w = filter_window x (nat sz) i in foldl min (hd w) (tl w))
                  [0..<length x]))"

text \<open>\<open>keogh_envelopes\<close>: the filters are called with \<open>r\<close> as their \<open>size\<close> argument.\<close>

definition keogh_envelopes :: "u16 list \<Rightarrow> int \<Rightarrow> error + (u16 list \<times> u16 list)" where
  "keogh_envelopes x r =
     bind (maximum_filter1d x r) (\<lambda>u.
     bind (minimum_filter1d x r) (\<lambda>l. Inr (u, l)))"

text \<open>
  The envelope as the specification words it: the greatest and the least entry of \<open>x\<close> over
  the positions \<open>i - r, ..., i + r\<close>, clipped to the sequence.
\<close>

definition spec_window :: "u16 list \<Rightarrow> nat \<Rightarrow> nat \<Rightarrow> u16 list" where
  "spec_window x r i = take (min (length x) (i + r + 1) - (i - r)) (drop (i - r) x)"

definition spec_envelope :: "u16 list \<Rightarrow> nat \<Rightarrow> u16 list \<times> u16 list" where
  "spec_envelope x r =
     (map (\<lambda>i. let w = spec_window x r i in foldl max (hd w) (tl w)) [0..<length x],
      map (\<lambda>i. let w = spec_window x r i in foldl min (hd w) (tl w)) [0..<length x])"

text \<open>
  \<open>lb_keogh\<close>: the longer of \<open>u\<close>, \<open>l\<close> and \<open>y\<close> is trimmed, the bit distances to the
  envelope are summed (NumPy sums \<open>uint16\<close> entries in 64 bits) over the positions where
  \<open>y\<close> lies outside it, and the sum is divided by \<open>float(u.shape[0])\<close>. A lower envelope
  whose length differs from that of \<open>y\<close> after trimming is a shape error of \<open>y ^ l\<close>
  (NumPy's broadcasting of an operand of length one is left out of the model; both
  envelopes of \<open>keogh_envelopes\<close> have the same length).
\<close>

definition lb_keogh :: "u16 list \<Rightarrow> u16 list \<Rightarrow> u16 list \<Rightarrow> error + npfloat" where
  "lb_keogh u l y =
     (let y' = (if length y > length u then take (length u) y else y);
          u' = (if length y > length u then u else take (length y) u);
          l' = (if length y > length u then l else take (length y) l)
      in if length l' \<noteq> length y' then Inl ValueError
         else
           let bound =
                 sum_list (map (\<lambda>(a, b). unat (bits_set_at (a XOR b)))
                             (filter (\<lambda>(a, b). a > b) (zip y' u')))
               + sum_list (map (\<lambda>(a, b). unat (bits_set_at (a XOR b)))
                             (filter (\<lambda>(a, b). a < b) (zip y' l')))
           in Inr (np_div bound (length u')))"

section \<open>Matching a query against a list of sequences\<close>

text \<open>
  \<open>np.searchsorted\<close> is a binary search: with \<open>side='left'\<close> it moves right past the
  entries below the key, with \<open>side='right'\<close> past the entries not above it. The lengths
  are integers and the key is a float: NumPy converts the list of lengths to an array of
  floats, the common type of the two, and searches that array.
\<close>

function searchsorted_loop :: "bool \<Rightarrow> rat list \<Rightarrow> rat \<Rightarrow> nat \<Rightarrow> nat \<Rightarrow> nat" where
  "searchsorted_loop right a key lo hi =
     (if lo < hi then
        (let mid = lo + (hi - lo) div 2 in
         if (if right then a ! mid \<le> key else a ! mid < key)
         then searchsorted_loop right a key (mid + 1) hi
         else searchsorted_loop right a key lo mid)
      else lo)"
  by pat_completeness auto
termination
  by (relation "measure (\<lambda>(right, a, key, lo, hi). hi - lo)") auto

declare searchsorted_loop.simps [simp del]

definition searchsorted :: "int list \<Rightarrow> rat \<Rightarrow> bool \<Rightarrow> nat" where
  "searchsorted a key right =
     searchsorted_loop right (map (\<lambda>x. fl64 (of_int x)) a) key 0 (length a)"

text \<open>
  The range \<open>[start, end)\<close> of candidates whose length is within the tolerance. The two
  keys \<open>(1 - length_tolerance) * query_length\<close> and \<open>(1 + length_tolerance) * query_length\<close>
  are computed with floats: the difference (the sum) is rounded, then the product.
\<close>

definition match_range :: "int list \<Rightarrow> rat \<Rightarrow> rat \<Rightarrow> nat \<times> nat" where
  "match_range lengths length_tolerance query_length =
     (searchsorted lengths (fl64 (fl64 (1 - length_tolerance) * query_length)) False,
      searchsorted lengths (fl64 (fl64 (1 + length_tolerance) * query_length)) True)"

text \<open>
  The loop over the candidates \<open>n\<close> of the range. The state is \<open>best_so_far\<close> (initially
  \<open>inf\<close>) with the lists \<open>matches\<close> and \<open>scores\<close>.
\<close>

fun match_loop ::
  "u16 list \<Rightarrow> u16 list list \<Rightarrow> u16 list \<Rightarrow> u16 list \<Rightarrow> rat \<Rightarrow> u16 \<Rightarrow> nat list
     \<Rightarrow> npfloat \<times> nat list \<times> npfloat list \<Rightarrow> error + (npfloat \<times> nat list \<times> npfloat list)" where
  "match_loop query sequences u l gully penalty [] st = Inr st"
| "match_loop query sequences u l gully penalty (n # ns) st =
     (let best_so_far = fst st; matches = fst (snd st); scores = snd (snd st) in
      if length sequences \<le> n then Inl IndexError
      else
        bind (lb_keogh u l (sequences ! n)) (\<lambda>keogh_bound.
          if np_less keogh_bound best_so_far
          then
            bind (dtw (int_dist query (sequences ! n)
                         (np_zeros (length query) (length (sequences ! n))))
                    gully penalty) (\<lambda>score.
              match_loop query sequences u l gully penalty ns
                (if np_less score best_so_far then score else best_so_far,
                 matches @ [n], scores @ [score]))
          else match_loop query sequences u l gully penalty ns st))"

text \<open>
  \<open>np.argsort\<close> of the scores: ascending, \<open>inf\<close> after the finite scores and \<open>nan\<close> last.
  The order of equal scores is not fixed by NumPy's default sort; the model keeps them in
  their order of arrival.
\<close>

fun score_key :: "npfloat \<Rightarrow> nat \<times> rat" where
  "score_key (Finite q) = (0, q)"
| "score_key PosInf = (1, 0)"
| "score_key NaN = (2, 0)"

definition argsort :: "npfloat list \<Rightarrow> nat list" where
  "argsort scores = map snd (sort_key fst (zip (map score_key scores) [0..<length scores]))"

definition match_one_sequence ::
  "u16 list \<Rightarrow> rat \<Rightarrow> u16 list list \<Rightarrow> int list \<Rightarrow> rat \<Rightarrow> int \<Rightarrow> rat \<Rightarrow> u16
     \<Rightarrow> error + (nat list \<times> npfloat list)" where
  "match_one_sequence query query_length sequences lengths length_tolerance radius gully penalty =
     (let start = fst (match_range lengths length_tolerance query_length);
          end = snd (match_range lengths length_tolerance query_length)
      in bind (keogh_envelopes query radius) (\<lambda>(u, l).
         bind (match_loop query sequences u l gully penalty [start..<end] (PosInf, [], []))
           (\<lambda>(best_so_far, matches, scores).
              let sorted_idx = argsort scores
              in Inr (map (\<lambda>n. matches ! n) sorted_idx, map (\<lambda>n. scores ! n) sorted_idx))))"

section \<open>Notions used to state the properties\<close>

text \<open>
  \<open>first_min_at f lo hi i\<close>: among the positions \<open>lo, ..., hi - 1\<close>, position \<open>i\<close> is the
  first one at which \<open>f\<close> is least.
\<close>

definition first_min_at :: "(nat \<Rightarrow> u16) \<Rightarrow> nat \<Rightarrow> nat \<Rightarrow> nat \<Rightarrow> bool" where
  "first_min_at f lo hi i \<longleftrightarrow>
     lo \<le> i \<and> i < hi \<and> (\<forall>k\<in>{lo..<hi}. f i \<le> f k) \<and> (\<forall>k\<in>{lo..<i}. f i < f k)"

text \<open>
  The cumulative cost that the relaxation computes when no store wraps around: the cost
  \<open>d\<close> of the cell plus the least of the diagonal predecessor and the two other
  predecessors with the penalty. \<open>relaxed_upto D p S m n\<close>: in \<open>S\<close> the rows up to \<open>m\<close>
  and the cells of row \<open>m + 1\<close> up to column \<open>n\<close> hold this cost, the other cells still
  hold the entries of \<open>D\<close>.
\<close>

fun cum_cost :: "(nat \<Rightarrow> nat \<Rightarrow> nat) \<Rightarrow> nat \<Rightarrow> nat \<Rightarrow> nat \<Rightarrow> nat" where
  "cum_cost d p 0 j = d 0 j"
| "cum_cost d p (Suc i) 0 = d (Suc i) 0"
| "cum_cost d p (Suc i) (Suc j) =
     d (Suc i) (Suc j) + min (cum_cost d p i j) (min (cum_cost d p i (Suc j)) (cum_cost d p (Suc i) j) + p)"

definition relaxed_upto :: "ndarray2 \<Rightarrow> nat \<Rightarrow> ndarray2 \<Rightarrow> nat \<Rightarrow> nat \<Rightarrow> bool" where
  "relaxed_upto D p S m n \<longleftrightarrow>
     shape0 S = shape0 D \<and> shape1 S = shape1 D \<and>
     (\<forall>a< shape0 D. \<forall>b< shape1 D.
        cell S a b = (if a \<le> m \<or> (a = m + 1 \<and> b \<le> n)
                      then of_nat (cum_cost (\<lambda>a b. unat (cell D a b)) p a b)
                      else cell D a b))"

text \<open>
  The relaxation as the specification words it: the cells \<open>(i + 1, j + 1)\<close> are visited in
  row-major order, \<open>i\<close> from \<open>0\<close> to \<open>rows - 2\<close> and \<open>j\<close> from \<open>0\<close> to \<open>cols - 2\<close>, the
  counters being unbounded integers.
\<close>

definition spec_dtw_core :: "ndarray2 \<Rightarrow> u16 \<Rightarrow> ndarray2 \<Rightarrow> ndarray2 \<times> ndarray2" where
  "spec_dtw_core D pen path_length =
     foldl (\<lambda>s (i, j). dtw_step pen i j s) (D, path_length)
       (List.product [0..<shape0 D - 1] [0..<shape1 D - 1])"

text \<open>
  \<open>counted_upto r c P m n\<close>: in the path lengths \<open>P\<close> of an \<open>r\<close> by \<open>c\<close> matrix, the cells
  outside the first row and the first column that the relaxation has visited (the rows up
  to \<open>m\<close> and the cells of row \<open>m + 1\<close> up to column \<open>n\<close>) hold a length between \<open>1\<close> and
  the sum of their indices, and the other cells hold \<open>0\<close>.
\<close>

definition counted_upto :: "nat \<Rightarrow> nat \<Rightarrow> ndarray2 \<Rightarrow> nat \<Rightarrow> nat \<Rightarrow> bool" where
  "counted_upto r c P m n \<longleftrightarrow>
     (\<forall>a< r. \<forall>b< c.
        if (a \<le> m \<or> (a = m + 1 \<and> b \<le> n)) \<and> 1 \<le> a \<and> 1 \<le> b
        then 1 \<le> unat (cell P a b) \<and> unat (cell P a b) \<le> a + b
        else cell P a b = 0)"

section \<open>Round trip between integers and bit vectors\<close>

lemma bit_term:
  "(drop_bit k n AND 1) * 2 ^ nat (int k * (drop_bit k n AND 1)) = (n div 2 ^ k mod 2) * 2 ^ k"
  for n :: int
proof -
  have b: "drop_bit k n AND 1 = n div 2 ^ k mod 2"
    by (simp add: and_one_eq drop_bit_eq_div)
  have "n div 2 ^ k mod 2 = 0 \<or> n div 2 ^ k mod 2 = 1" by presburger
  then show ?thesis unfolding b by auto
qed

lemma bits_sum: "sum_list (map (\<lambda>k. (n div 2 ^ k mod 2) * 2 ^ k) [0..<m]) = n mod 2 ^ m"
  for n :: int
proof (induction m)
  case 0 show ?case by simp
next
  case (Suc m)
  have "n mod 2 ^ Suc m = 2 ^ m * (n div 2 ^ m mod 2) + n mod 2 ^ m"
    using zmod_zmult2_eq [of 2 n "2 ^ m"] by (simp add: mult.commute)
  with Suc show ?case by (simp add: mult.commute)
qed

lemma row_roundtrip:
  "sum_list (map (\<lambda>k. map (\<lambda>i. drop_bit i n AND 1) [0..<m] ! k
       * 2 ^ nat (int k * map (\<lambda>i. drop_bit i n AND 1) [0..<m] ! k)) [0..<m])
   = n mod 2 ^ m" for n :: int
proof -
  have "map (\<lambda>k. map (\<lambda>i. drop_bit i n AND 1) [0..<m] ! k
       * 2 ^ nat (int k * map (\<lambda>i. drop_bit i n AND 1) [0..<m] ! k)) [0..<m]
     = map (\<lambda>k. (n div 2 ^ k mod 2) * 2 ^ k) [0..<m]"
    by (rule map_cong) (simp_all add: bit_term)
  then show ?thesis by (simp only: bits_sum)
qed

text \<open>
  Claim C8: for every sequence \<open>S\<close> of 16-bit unsigned integers,
  \<open>vectors_to_ints(ints_to_vectors(S)) == S\<close>. For the empty sequence \<open>ints_to_vectors\<close>
  returns \<open>np.array([])\<close>, a one-dimensional array of shape \<open>(0,)\<close>, where its docstring
  gives the shape \<open>(len(int_sequence), N_BITS)\<close>; \<open>vectors_to_ints\<close> then raises
  \<open>IndexError\<close> when it reads \<open>vectors.shape[1]\<close>, and the round trip does not return \<open>[]\<close>.
\<close>

theorem ints_to_vectors_empty_shape:
  "ints_to_vectors [] = Array1D []
   \<and> vectors_to_ints (ints_to_vectors []) = Inl IndexError
   \<and> vectors_to_ints (ints_to_vectors []) \<noteq> Inr []"
  by (simp add: vectors_to_ints_def ints_to_vectors_def np_array_def)

text \<open>
  The empty sequence is the only one at which the round trip fails: for every non-empty
  sequence \<open>S\<close> of 16-bit unsigned integers, converting to bit vectors and back returns \<open>S\<close>.
\<close>

lemma roundtrip_nonempty:
  assumes "S \<noteq> []" and "\<forall>n\<in>set S. 0 \<le> n \<and> n < 65536"
  shows "vectors_to_ints (ints_to_vectors S) = Inr S"
proof -
  have "map (\<lambda>n. n mod 2 ^ N_BITS) S = S"
    using assms(2) by (intro map_idI) (simp add: N_BITS_def)
  then show ?thesis
    using assms(1)
    by (simp add: vectors_to_ints_def ints_to_vectors_def np_array_def o_def row_roundtrip)
qed

section \<open>Rounding to a float\<close>

lemma round_half_even_le: "of_int (round_half_even x) \<le> x + 1 / 2"
proof -
  have key: "of_int (if x - of_int f < 1 / 2 then f
                     else if 1 / 2 < x - of_int f then f + 1
                     else if even f then f else f + 1) \<le> x + 1 / 2"
    if "of_int f \<le> x" for f :: int
    using that by auto
  have "of_int \<lfloor>x\<rfloor> \<le> x" by simp
  then show ?thesis unfolding round_half_even_def Let_def by (rule key)
qed

lemma round_half_even_ge: "x - 1 / 2 \<le> of_int (round_half_even x)"
proof -
  have key: "x - 1 / 2 \<le> of_int (if x - of_int f < 1 / 2 then f
                     else if 1 / 2 < x - of_int f then f + 1
                     else if even f then f else f + 1)"
    if "x < of_int f + 1" for f :: int
    using that by auto
  have "x < of_int \<lfloor>x\<rfloor> + 1" by linarith
  then show ?thesis unfolding round_half_even_def Let_def by (rule key)
qed

lemma round_half_even_of_int: "round_half_even (of_int k) = k"
  by (simp add: round_half_even_def)

lemma round_half_even_nonneg: "0 \<le> x \<Longrightarrow> 0 \<le> round_half_even x"
proof -
  assume "0 \<le> x"
  then have "(- 1 :: rat) < of_int (round_half_even x)"
    using round_half_even_ge [of x] by linarith
  then have "- 1 < round_half_even x" by (simp only: of_int_less_iff [symmetric, where 'a = rat] of_int_minus of_int_1)
  then show ?thesis by simp
qed

lemma bitlen_rat_bounds:
  assumes "0 < p"
  shows "2 powi (bitlen p - 1) \<le> (of_int p :: rat)" "(of_int p :: rat) < 2 powi (bitlen p)"
proof -
  have b: "2 ^ nat (bitlen p - 1) \<le> p" "p < 2 ^ nat (bitlen p)"
    using bitlen_bounds [OF assms] by simp_all
  have pos: "1 \<le> bitlen p"
    using assms bitlen_eq_zero_iff [of p] bitlen_nonneg [of p] by linarith
  have "(of_int (2 ^ nat (bitlen p - 1)) :: rat) \<le> of_int p" using b(1) by (simp only: of_int_le_iff)
  then show "2 powi (bitlen p - 1) \<le> (of_int p :: rat)"
    using pos by (simp add: power_int_nonneg_exp)
  have "(of_int p :: rat) < of_int (2 ^ nat (bitlen p))" using b(2) by (simp only: of_int_less_iff)
  then show "(of_int p :: rat) < 2 powi (bitlen p)"
    using pos by (simp add: power_int_nonneg_exp)
qed

lemma ilog2_bounds:
  assumes "0 < x"
  shows "2 powi (ilog2 x) \<le> x" and "x < 2 powi (ilog2 x + 1)"
proof -
  obtain p q where pq: "quotient_of x = (p, q)" by (cases "quotient_of x")
  have q: "0 < q" using pq by (rule quotient_of_denom_pos)
  have x: "x = of_int p / of_int q" using pq by (rule quotient_of_div)
  have p: "0 < p" using assms q unfolding x by (simp add: zero_less_divide_iff)
  define k where "k = bitlen p - bitlen q"
  have two: "(2 :: rat) \<noteq> 0" by simp
  have up: "x < 2 powi (k + 1)"
  proof -
    have "of_int p / of_int q < (2 :: rat) powi (bitlen p) / 2 powi (bitlen q - 1)"
      using bitlen_rat_bounds [OF p] bitlen_rat_bounds [OF q] p
      by (intro frac_less) simp_all
    also have "\<dots> = 2 powi (bitlen p - (bitlen q - 1))" by (simp add: power_int_diff)
    also have "bitlen p - (bitlen q - 1) = k + 1" by (simp add: k_def)
    finally show ?thesis unfolding x .
  qed
  have lo: "2 powi (k - 1) < x"
  proof -
    have "(2 :: rat) powi (bitlen p - 1) / 2 powi (bitlen q) < of_int p / of_int q"
      using bitlen_rat_bounds [OF p] bitlen_rat_bounds [OF q] q
      by (intro frac_less2) simp_all
    moreover have "(2 :: rat) powi (bitlen p - 1) / 2 powi (bitlen q) = 2 powi (bitlen p - 1 - bitlen q)"
      by (simp add: power_int_diff)
    moreover have "bitlen p - 1 - bitlen q = k - 1" by (simp add: k_def)
    ultimately show ?thesis unfolding x by simp
  qed
  have il: "ilog2 x = (if 2 powi k \<le> x then k else k - 1)"
    by (simp add: ilog2_def pq k_def Let_def)
  show "2 powi (ilog2 x) \<le> x" using lo by (simp add: il)
  show "x < 2 powi (ilog2 x + 1)" using up by (simp add: il not_le)
qed

lemma fl64_pos:
  assumes "0 < x"
  shows "fl64 x = of_int (round_half_even (x / 2 powi (ilog2 x - 52))) * 2 powi (ilog2 x - 52)"
  using assms by (simp add: fl64_def Let_def)

lemma scaled_bounds:
  assumes "0 < x"
  shows "2 ^ 52 \<le> x / 2 powi (ilog2 x - 52)" and "x / 2 powi (ilog2 x - 52) < 2 ^ 53"
proof -
  have pos: "(0 :: rat) < 2 powi (ilog2 x - 52)" by simp
  have "(2 :: rat) powi (ilog2 x - 52 + 52) = 2 powi (ilog2 x - 52) * 2 powi 52"
    by (rule power_int_add) simp
  then have a: "(2 :: rat) ^ 52 * 2 powi (ilog2 x - 52) = 2 powi (ilog2 x)" by simp
  have "(2 :: rat) powi (ilog2 x - 52 + 53) = 2 powi (ilog2 x - 52) * 2 powi 53"
    by (rule power_int_add) simp
  moreover have "ilog2 x - 52 + 53 = ilog2 x + 1" by simp
  ultimately have b: "(2 :: rat) ^ 53 * 2 powi (ilog2 x - 52) = 2 powi (ilog2 x + 1)"
    by (simp add: mult.commute)
  show "2 ^ 52 \<le> x / 2 powi (ilog2 x - 52)"
    using ilog2_bounds(1) [OF assms] pos a by (simp add: pos_le_divide_eq)
  show "x / 2 powi (ilog2 x - 52) < 2 ^ 53"
    using ilog2_bounds(2) [OF assms] pos b by (simp add: pos_divide_less_eq)
qed

lemma fl64_nonneg: "0 \<le> x \<Longrightarrow> 0 \<le> fl64 x"
proof (cases "x = 0")
  case True
  then show ?thesis by (simp add: fl64_def)
next
  case False
  assume "0 \<le> x"
  with False have x: "0 < x" by simp
  have "0 \<le> x / 2 powi (ilog2 x - 52)" using x by simp
  then have "0 \<le> round_half_even (x / 2 powi (ilog2 x - 52))" by (rule round_half_even_nonneg)
  then show ?thesis unfolding fl64_pos [OF x] by simp
qed

lemma ilog2_neg:
  assumes "0 < x" and "x < 1"
  shows "ilog2 x \<le> - 1"
proof (rule ccontr)
  assume "\<not> ilog2 x \<le> - 1"
  then have "0 \<le> ilog2 x" by simp
  then have "(1 :: rat) \<le> 2 powi (ilog2 x)" by simp
  then show False using ilog2_bounds(1) [OF assms(1)] assms(2) by simp
qed

lemma float_below_one:
  assumes fl: "fl64 g = g" and pos: "0 < g" and lt: "g < 1"
  shows "g \<le> 1 - 1 / 2 ^ 53"
proof -
  define e where "e = ilog2 g - 52"
  define M where "M = round_half_even (g / 2 powi e)"
  have e: "e \<le> - 53" using ilog2_neg [OF pos lt] by (simp add: e_def)
  have g: "g = of_int M * 2 powi e"
    using fl fl64_pos [OF pos] by (simp add: M_def e_def)
  have "of_int M = g / 2 powi e" using g by simp
  then have "(of_int M :: rat) < 2 ^ 53" using scaled_bounds(2) [OF pos] by (simp add: e_def)
  then have "(of_int M :: rat) < of_int (2 ^ 53)" by simp
  then have "M < 2 ^ 53" by (simp only: of_int_less_iff)
  then have M: "M \<le> 2 ^ 53 - 1" by simp
  have M0: "0 \<le> M" unfolding M_def using pos by (intro round_half_even_nonneg) simp
  have "(2 :: rat) powi e \<le> 2 powi (- 53)" using e by (intro power_int_increasing) simp_all
  then have p: "(2 :: rat) powi e \<le> 1 / 2 ^ 53" by (simp add: power_int_minus_divide)
  have "(of_int M :: rat) \<le> of_int (2 ^ 53 - 1)" using M by (simp only: of_int_le_iff)
  then have M': "(of_int M :: rat) \<le> 2 ^ 53 - 1" by simp
  have "g \<le> (2 ^ 53 - 1) * (1 / 2 ^ 53)"
    unfolding g using M' p M0 by (intro mult_mono) simp_all
  then show ?thesis by simp
qed

lemma fl64_product_below:
  assumes fl: "fl64 g = g" and g0: "0 \<le> g" and g1: "g < 1" and n: "1 \<le> n"
  shows "fl64 (g * of_nat n) < of_nat n"
proof (cases "g = 0")
  case True
  then show ?thesis using n by (simp add: fl64_def)
next
  case False
  then have pos: "0 < g" using g0 by simp
  define p where "p = g * of_nat n"
  define e where "e = ilog2 p - 52"
  have n0: "(0 :: rat) < of_nat n" using n by simp
  have p0: "0 < p" using pos n0 by (simp add: p_def)
  have gb: "g \<le> 1 - 1 / 2 ^ 53" by (rule float_below_one [OF fl pos g1])
  have pb: "p \<le> of_nat n - of_nat n / 2 ^ 53"
  proof -
    have "g * of_nat n \<le> (1 - 1 / 2 ^ 53) * of_nat n"
      using gb n0 by (intro mult_right_mono) simp_all
    then show ?thesis by (simp add: p_def algebra_simps)
  qed
  have pn: "p < of_nat n" using g1 n0 by (simp add: p_def)
  have epos: "(0 :: rat) < 2 powi e" by simp
  have "2 ^ 52 \<le> p / 2 powi e" using scaled_bounds(1) [OF p0] by (simp add: e_def)
  then have "2 ^ 52 * 2 powi e \<le> p" using epos by (simp add: pos_le_divide_eq)
  then have eb: "2 powi e / 2 \<le> p / 2 ^ 53" by simp
  have "fl64 p = of_int (round_half_even (p / 2 powi e)) * 2 powi e"
    using fl64_pos [OF p0] by (simp add: e_def)
  also have "\<dots> \<le> (p / 2 powi e + 1 / 2) * 2 powi e"
    using round_half_even_le [of "p / 2 powi e"] epos by (intro mult_right_mono) simp_all
  also have "\<dots> = p + 2 powi e / 2" using epos by (simp add: algebra_simps)
  also have "\<dots> \<le> p + p / 2 ^ 53" using eb by simp
  also have "\<dots> < p + of_nat n / 2 ^ 53" using pn by (simp add: divide_strict_right_mono)
  also have "\<dots> \<le> of_nat n" using pb by simp
  finally show ?thesis by (simp add: p_def)
qed

lemma fl64_of_int_exact:
  assumes "\<bar>k\<bar> < 2 ^ 53"
  shows "fl64 (of_int k) = of_int k"
proof (cases "k = 0")
  case True
  then show ?thesis by (simp add: fl64_def)
next
  case False
  define a where "a = \<bar>k\<bar>"
  define e where "e = ilog2 (of_int a) - 52"
  have a0: "0 < a" using False by (simp add: a_def)
  have ar: "(0 :: rat) < of_int a" using a0 by simp
  have "(of_int a :: rat) < of_int (2 ^ 53)" using assms unfolding a_def by (simp only: of_int_less_iff)
  then have "(of_int a :: rat) < 2 powi 53" by simp
  then have lt: "(2 :: rat) powi (ilog2 (of_int a)) < 2 powi 53"
    using ilog2_bounds(1) [OF ar] by (rule le_less_trans [rotated])
  have "ilog2 (of_int a) < 53"
    by (rule power_int_le_imp_less_exp [OF _ lt]) simp_all
  then have e: "e \<le> 0" by (simp add: e_def)
  have inv: "(of_int a :: rat) / 2 powi e = of_int (a * 2 ^ nat (- e))"
  proof -
    have "(2 :: rat) powi e = 1 / 2 powi (- e)" by (simp add: power_int_minus_divide)
    also have "(2 :: rat) powi (- e) = 2 ^ nat (- e)" using e by (simp add: power_int_nonneg_exp)
    finally show ?thesis by simp
  qed
  have r: "round_half_even (of_int a / 2 powi e) = a * 2 ^ nat (- e)"
    unfolding inv by (rule round_half_even_of_int)
  have "fl64 (of_int k) = sgn (of_int k) * of_int (round_half_even (\<bar>of_int k\<bar> / 2 powi e)) * 2 powi e"
    using False by (simp add: fl64_def Let_def e_def a_def)
  also have "\<bar>of_int k :: rat\<bar> = of_int a" by (simp add: a_def)
  also have "of_int (round_half_even (of_int a / 2 powi e)) = (of_int a :: rat) / 2 powi e"
    unfolding r inv [symmetric] ..
  also have "sgn (of_int k) * (of_int a / 2 powi e) * 2 powi e = sgn (of_int k :: rat) * of_int a"
    by simp
  also have "\<dots> = of_int k" unfolding a_def by (simp add: sgn_if)
  finally show ?thesis .
qed

section \<open>Shapes, \<open>argmin\<close> and the endpoint of \<open>dtw\<close>\<close>

lemma bind_Inr [simp]: "bind (Inr x) f = f x"
  by (simp add: bind_def)

lemma bind_Inl [simp]: "bind (Inl e) f = Inl e"
  by (simp add: bind_def)

lemma set_cell_shape [simp]:
  "shape0 (set_cell A i j v) = shape0 A" "shape1 (set_cell A i j v) = shape1 A"
  by (simp_all add: set_cell_def)

lemma set_cell_cell [simp]:
  "cell (set_cell A i j v) a b = (if a = i \<and> b = j then v else cell A a b)"
  by (simp add: set_cell_def)

lemma dtw_step_shape [simp]:
  "shape0 (fst (dtw_step pen i j s)) = shape0 (fst s)"
  "shape1 (fst (dtw_step pen i j s)) = shape1 (fst s)"
  "shape0 (snd (dtw_step pen i j s)) = shape0 (snd s)"
  "shape1 (snd (dtw_step pen i j s)) = shape1 (snd s)"
  by (simp_all add: dtw_step_def Let_def)

lemma foldl_shape:
  assumes "\<And>s x. P (f s x) = P s"
  shows "P (foldl f s xs) = P s"
  using assms by (induction xs arbitrary: s) simp_all

lemma dtw_core_shape [simp]:
  "shape0 (fst (dtw_core D pen P)) = shape0 D"
  "shape1 (fst (dtw_core D pen P)) = shape1 D"
  "shape0 (snd (dtw_core D pen P)) = shape0 P"
  "shape1 (snd (dtw_core D pen P)) = shape1 P"
proof -
  have inner: "\<And>Q s i js. (\<And>s j. Q (dtw_step pen (u16_index i) (u16_index j) s) = Q s) \<Longrightarrow>
     Q (foldl (\<lambda>s j. dtw_step pen (u16_index i) (u16_index j) s) s js) = Q s"
    by (rule foldl_shape) simp
  show "shape0 (fst (dtw_core D pen P)) = shape0 D"
    unfolding dtw_core_def
    by (subst foldl_shape [where P = "\<lambda>s. shape0 (fst s)"]) (simp_all add: inner [where Q = "\<lambda>s. shape0 (fst s)"])
  show "shape1 (fst (dtw_core D pen P)) = shape1 D"
    unfolding dtw_core_def
    by (subst foldl_shape [where P = "\<lambda>s. shape1 (fst s)"]) (simp_all add: inner [where Q = "\<lambda>s. shape1 (fst s)"])
  show "shape0 (snd (dtw_core D pen P)) = shape0 P"
    unfolding dtw_core_def
    by (subst foldl_shape [where P = "\<lambda>s. shape0 (snd s)"]) (simp_all add: inner [where Q = "\<lambda>s. shape0 (snd s)"])
  show "shape1 (snd (dtw_core D pen P)) = shape1 P"
    unfolding dtw_core_def
    by (subst foldl_shape [where P = "\<lambda>s. shape1 (snd s)"]) (simp_all add: inner [where Q = "\<lambda>s. shape1 (snd s)"])
qed

lemma argmin_from_inv:
  assumes "best < length pre" and "b = pre ! best"
    and "\<forall>m<length pre. b \<le> pre ! m" and "\<forall>m<best. b < pre ! m"
  shows "argmin_from best b (length pre) xs < length (pre @ xs)
       \<and> (\<forall>m<length (pre @ xs). (pre @ xs) ! argmin_from best b (length pre) xs \<le> (pre @ xs) ! m)
       \<and> (\<forall>m<argmin_from best b (length pre) xs.
             (pre @ xs) ! argmin_from best b (length pre) xs < (pre @ xs) ! m)"
  using assms
proof (induction xs arbitrary: pre best b)
  case Nil
  then show ?case by simp
next
  case (Cons x xs)
  show ?case
  proof (cases "x < b")
    case True
    have 1: "length pre < length (pre @ [x])" by simp
    have 2: "x = (pre @ [x]) ! length pre" by simp
    have 3: "\<forall>m<length (pre @ [x]). x \<le> (pre @ [x]) ! m"
    proof (intro allI impI)
      fix m assume "m < length (pre @ [x])"
      then consider "m < length pre" | "m = length pre" by fastforce
      then show "x \<le> (pre @ [x]) ! m"
      proof cases
        case 1
        then have "b \<le> pre ! m" using Cons.prems(3) by blast
        with True 1 show ?thesis by (simp add: nth_append)
      next
        case 2
        then show ?thesis by simp
      qed
    qed
    have 4: "\<forall>m<length pre. x < (pre @ [x]) ! m"
    proof (intro allI impI)
      fix m assume m: "m < length pre"
      then have "b \<le> pre ! m" using Cons.prems(3) by blast
      with True m show "x < (pre @ [x]) ! m" by (simp add: nth_append)
    qed
    from Cons.IH [OF 1 2 3 4] True show ?thesis by simp
  next
    case False
    have 1: "best < length (pre @ [x])" using Cons.prems(1) by simp
    have 2: "b = (pre @ [x]) ! best" using Cons.prems(1,2) by (simp add: nth_append)
    have 3: "\<forall>m<length (pre @ [x]). b \<le> (pre @ [x]) ! m"
    proof (intro allI impI)
      fix m assume "m < length (pre @ [x])"
      then consider "m < length pre" | "m = length pre" by fastforce
      then show "b \<le> (pre @ [x]) ! m"
      proof cases
        case 1
        then show ?thesis using Cons.prems(3) by (simp add: nth_append)
      next
        case 2
        then show ?thesis using False by simp
      qed
    qed
    have 4: "\<forall>m<best. b < (pre @ [x]) ! m"
      using Cons.prems(1,4) by (simp add: nth_append)
    from Cons.IH [OF 1 2 3 4] False show ?thesis by simp
  qed
qed

lemma argmin_first_min:
  assumes "xs \<noteq> []"
  shows "\<exists>a. argmin xs = Inr a \<and> a < length xs \<and> (\<forall>m<length xs. xs ! a \<le> xs ! m)
             \<and> (\<forall>m<a. xs ! a < xs ! m)"
proof -
  obtain x ys where xs: "xs = x # ys" using assms by (cases xs) auto
  have am: "argmin (x # ys) = Inr (argmin_from 0 x 1 ys)" by (simp add: argmin_def)
  have "argmin_from 0 x (length [x]) ys < length ([x] @ ys)
       \<and> (\<forall>m<length ([x] @ ys). ([x] @ ys) ! argmin_from 0 x (length [x]) ys \<le> ([x] @ ys) ! m)
       \<and> (\<forall>m<argmin_from 0 x (length [x]) ys.
             ([x] @ ys) ! argmin_from 0 x (length [x]) ys < ([x] @ ys) ! m)"
    by (rule argmin_from_inv) simp_all
  then show ?thesis using am unfolding xs by simp
qed

lemma argmin_upt:
  assumes "lo < hi"
  shows "\<exists>a. argmin (map f [lo..<hi]) = Inr a \<and> first_min_at f lo hi (lo + a)"
proof -
  have ne: "map f [lo..<hi] \<noteq> []" using assms by simp
  from argmin_first_min [OF ne] obtain a where
    a: "argmin (map f [lo..<hi]) = Inr a" "a < hi - lo"
       "\<forall>m<hi - lo. map f [lo..<hi] ! a \<le> map f [lo..<hi] ! m"
       "\<forall>m<a. map f [lo..<hi] ! a < map f [lo..<hi] ! m"
    by auto
  have 1: "\<forall>k\<in>{lo..<hi}. f (lo + a) \<le> f k"
  proof
    fix k assume "k \<in> {lo..<hi}"
    then have "k - lo < hi - lo" "lo + (k - lo) = k" by auto
    with a(2,3) show "f (lo + a) \<le> f k" by (metis nth_map_upt)
  qed
  have 2: "\<forall>k\<in>{lo..<lo + a}. f (lo + a) < f k"
  proof
    fix k assume k: "k \<in> {lo..<lo + a}"
    then have "k - lo < a" "lo + (k - lo) = k" "k - lo < hi - lo" using a(2) by auto
    with a(2,4) show "f (lo + a) < f k" by (metis nth_map_upt)
  qed
  show ?thesis using a(1,2) 1 2 by (auto simp: first_min_at_def)
qed

lemma gully_offset:
  assumes "1 \<le> n" and "0 \<le> gully" and "gully < 1" and "fl64 gully = gully"
  shows "py_int (fl64 (gully * of_nat n)) = int (nat \<lfloor>fl64 (gully * of_nat n)\<rfloor>)"
    and "nat \<lfloor>fl64 (gully * of_nat n)\<rfloor> < n"
proof -
  have "0 \<le> gully * of_nat n" using assms by simp
  then have q0: "0 \<le> fl64 (gully * of_nat n)" by (rule fl64_nonneg)
  have q1: "fl64 (gully * of_nat n) < of_nat n"
    by (rule fl64_product_below [OF assms(4,2,3,1)])
  have f0: "0 \<le> \<lfloor>fl64 (gully * of_nat n)\<rfloor>" using q0 by simp
  have f1: "\<lfloor>fl64 (gully * of_nat n)\<rfloor> < int n" using q1 by (simp add: floor_less_iff)
  show "py_int (fl64 (gully * of_nat n)) = int (nat \<lfloor>fl64 (gully * of_nat n)\<rfloor>)"
    using q0 f0 by (simp add: py_int_def)
  show "nat \<lfloor>fl64 (gully * of_nat n)\<rfloor> < n" using f0 f1 by linarith
qed

lemma py_index_in_range: "k < n \<Longrightarrow> py_index (int k) n = Inr k"
  by (simp add: py_index_def)

lemma dtw_endpoint_char:
  assumes r: "1 \<le> shape0 D" and c: "1 \<le> shape1 D" and g0: "0 \<le> gully" and g1: "gully < 1"
    and gf: "fl64 gully = gully"
  shows "\<exists>i j. first_min_at (\<lambda>k. cell D k (shape1 D - 1))
                 (nat \<lfloor>fl64 (gully * of_nat (min (shape0 D) (shape1 D)))\<rfloor>) (shape0 D) i
             \<and> first_min_at (\<lambda>k. cell D (shape0 D - 1) k)
                 (nat \<lfloor>fl64 (gully * of_nat (min (shape0 D) (shape1 D)))\<rfloor>) (shape1 D) j
             \<and> dtw_endpoint D gully =
                 Inr (if unat (cell D (shape0 D - 1) j) > unat (cell D i (shape1 D - 1))
                      then (i, shape1 D - 1) else (shape0 D - 1, j))"
proof -
  define g where "g = nat \<lfloor>fl64 (gully * of_nat (min (shape0 D) (shape1 D)))\<rfloor>"
  have n: "1 \<le> min (shape0 D) (shape1 D)" using r c by simp
  have G: "py_int (fl64 (gully * of_nat (min (shape0 D) (shape1 D)))) = int g"
    unfolding g_def by (rule gully_offset(1) [OF n g0 g1 gf])
  have gn: "g < min (shape0 D) (shape1 D)"
    unfolding g_def by (rule gully_offset(2) [OF n g0 g1 gf])
  then have gr: "g < shape0 D" and gc: "g < shape1 D" by simp_all
  have s0: "slice_start (int g) (shape0 D) = g" using gr by (simp add: slice_start_def)
  have s1: "slice_start (int g) (shape1 D) = g" using gc by (simp add: slice_start_def)
  obtain a where a: "argmin (map (\<lambda>k. cell D k (shape1 D - 1)) [g..<shape0 D]) = Inr a"
    "first_min_at (\<lambda>k. cell D k (shape1 D - 1)) g (shape0 D) (g + a)"
    using argmin_upt [OF gr] by blast
  obtain b where b: "argmin (map (\<lambda>k. cell D (shape0 D - 1) k) [g..<shape1 D]) = Inr b"
    "first_min_at (\<lambda>k. cell D (shape0 D - 1) k) g (shape1 D) (g + b)"
    using argmin_upt [OF gc] by blast
  have ia: "py_index (int a + int g) (shape0 D) = Inr (g + a)"
    using a(2) py_index_in_range [of "g + a" "shape0 D"]
    by (simp add: first_min_at_def add.commute)
  have ib: "py_index (int b + int g) (shape1 D) = Inr (g + b)"
    using b(2) py_index_in_range [of "g + b" "shape1 D"]
    by (simp add: first_min_at_def add.commute)
  have "dtw_endpoint D gully =
          Inr (if unat (cell D (shape0 D - 1) (g + b)) > unat (cell D (g + a) (shape1 D - 1))
               then (g + a, shape1 D - 1) else (shape0 D - 1, g + b))"
    using r c a(1) b(1) ia ib by (simp add: dtw_endpoint_def Let_def G s0 s1)
  with a(2) b(2) show ?thesis unfolding g_def by blast
qed

lemma np_zeros_shape [simp]: "shape0 (np_zeros r c) = r" "shape1 (np_zeros r c) = c"
  by (simp_all add: np_zeros_def)

text \<open>
  Claim C3, amended: for a float gully in \<open>[0, 1)\<close>, with the offset
  \<open>int(gully * min(rows, cols))\<close> taken from the float product, \<open>i\<close> is the first
  position of least cost in the last column among the rows from the offset on, and \<open>j\<close> the
  first position of least cost in the last row among the columns from the offset on. If the
  cost of the last-row candidate exceeds the cost of the last-column candidate, the
  last-column endpoint \<open>(i, cols - 1)\<close> is selected (\<open>j\<close> is forced to the final column);
  otherwise the last-row endpoint \<open>(rows - 1, j)\<close> is selected (\<open>i\<close> is forced to the final
  row). The score is the cost at the endpoint divided by the path length at the endpoint.
\<close>

theorem dtw_endpoint_selection:
  assumes "1 \<le> shape0 D" and "1 \<le> shape1 D" and "0 \<le> gully" and "gully < 1"
    and "fl64 gully = gully"
  shows "\<exists>i j. first_min_at (\<lambda>k. cell (fst (dtw_core D penalty (np_zeros (shape0 D) (shape1 D)))) k (shape1 D - 1))
                 (nat \<lfloor>fl64 (gully * of_nat (min (shape0 D) (shape1 D)))\<rfloor>) (shape0 D) i
             \<and> first_min_at (\<lambda>k. cell (fst (dtw_core D penalty (np_zeros (shape0 D) (shape1 D)))) (shape0 D - 1) k)
                 (nat \<lfloor>fl64 (gully * of_nat (min (shape0 D) (shape1 D)))\<rfloor>) (shape1 D) j
             \<and> dtw D gully penalty =
                 Inr (if unat (cell (fst (dtw_core D penalty (np_zeros (shape0 D) (shape1 D)))) (shape0 D - 1) j)
                         > unat (cell (fst (dtw_core D penalty (np_zeros (shape0 D) (shape1 D)))) i (shape1 D - 1))
                      then np_div (unat (cell (fst (dtw_core D penalty (np_zeros (shape0 D) (shape1 D)))) i (shape1 D - 1)))
                                  (unat (cell (snd (dtw_core D penalty (np_zeros (shape0 D) (shape1 D)))) i (shape1 D - 1)))
                      else np_div (unat (cell (fst (dtw_core D penalty (np_zeros (shape0 D) (shape1 D)))) (shape0 D - 1) j))
                                  (unat (cell (snd (dtw_core D penalty (np_zeros (shape0 D) (shape1 D)))) (shape0 D - 1) j)))"
proof -
  define D' where "D' = fst (dtw_core D penalty (np_zeros (shape0 D) (shape1 D)))"
  define P' where "P' = snd (dtw_core D penalty (np_zeros (shape0 D) (shape1 D)))"
  have sh: "shape0 D' = shape0 D" "shape1 D' = shape1 D" by (simp_all add: D'_def)
  from dtw_endpoint_char [of D' gully] assms
  obtain i j where ij:
    "first_min_at (\<lambda>k. cell D' k (shape1 D - 1)) (nat \<lfloor>fl64 (gully * of_nat (min (shape0 D) (shape1 D)))\<rfloor>) (shape0 D) i"
    "first_min_at (\<lambda>k. cell D' (shape0 D - 1) k) (nat \<lfloor>fl64 (gully * of_nat (min (shape0 D) (shape1 D)))\<rfloor>) (shape1 D) j"
    "dtw_endpoint D' gully =
       Inr (if unat (cell D' (shape0 D - 1) j) > unat (cell D' i (shape1 D - 1))
            then (i, shape1 D - 1) else (shape0 D - 1, j))"
    unfolding sh by blast
  have "dtw D gully penalty =
          Inr (if unat (cell D' (shape0 D - 1) j) > unat (cell D' i (shape1 D - 1))
               then np_div (unat (cell D' i (shape1 D - 1))) (unat (cell P' i (shape1 D - 1)))
               else np_div (unat (cell D' (shape0 D - 1) j)) (unat (cell P' (shape0 D - 1) j)))"
    unfolding dtw_def Let_def D'_def [symmetric] P'_def [symmetric] ij(3) by simp
  with ij(1,2) show ?thesis unfolding D'_def P'_def by blast
qed

theorem dtw_endpoint_selection_witness:
  "dtw_endpoint (fst (dtw_core (matrix_of [[0, 1, 1], [1, 0, 0], [5, 5, 5]]) 0 (np_zeros 3 3))) 0
     = Inr (1, 2)
   \<and> dtw (matrix_of [[0, 1, 1], [1, 0, 0], [5, 5, 5]]) 0 0 = Inr (Finite 0)"
proof -
  have h1: "1 \<le> shape0 (matrix_of [[0, 1, 1], [1, 0, 0], [5, 5, 5]])" by (simp add: matrix_of_def)
  have h2: "1 \<le> shape1 (matrix_of [[0, 1, 1], [1, 0, 0], [5, 5, 5]])" by (simp add: matrix_of_def)
  have h3: "(0::rat) \<le> 0" by simp
  have h4: "(0::rat) < 1" by simp
  have h5: "fl64 0 = 0" by code_simp
  have e: "dtw_endpoint (fst (dtw_core (matrix_of [[0, 1, 1], [1, 0, 0], [5, 5, 5]]) 0 (np_zeros 3 3))) 0
             = Inr (1, 2)
           \<and> dtw (matrix_of [[0, 1, 1], [1, 0, 0], [5, 5, 5]]) 0 0 = Inr (Finite 0)"
    by code_simp
  from dtw_endpoint_selection [OF h1 h2 h3 h4 h5, of 0] e show ?thesis by simp
qed

text \<open>
  Claim C3, as stated, says that selecting the last-column endpoint forces \<open>i\<close> to the final
  row. On the matrix \<open>[[2, 0], [1, 3]]\<close> with penalty and gully \<open>0\<close> both candidates sit at
  position \<open>0\<close>, the last-row candidate costs \<open>1\<close> and the last-column candidate \<open>0\<close>, and the
  endpoint is \<open>(0, 1)\<close>: the column is the final one, the row is not.
\<close>

theorem dtw_endpoint_forced_index_counterexample:
  "argmin [cell (fst (dtw_core (matrix_of [[2, 0], [1, 3]]) 0 (np_zeros 2 2))) 0 1,
           cell (fst (dtw_core (matrix_of [[2, 0], [1, 3]]) 0 (np_zeros 2 2))) 1 1] = Inr 0
   \<and> argmin [cell (fst (dtw_core (matrix_of [[2, 0], [1, 3]]) 0 (np_zeros 2 2))) 1 0,
             cell (fst (dtw_core (matrix_of [[2, 0], [1, 3]]) 0 (np_zeros 2 2))) 1 1] = Inr 0
   \<and> unat (cell (fst (dtw_core (matrix_of [[2, 0], [1, 3]]) 0 (np_zeros 2 2))) 1 0)
       > unat (cell (fst (dtw_core (matrix_of [[2, 0], [1, 3]]) 0 (np_zeros 2 2))) 0 1)
   \<and> dtw_endpoint (fst (dtw_core (matrix_of [[2, 0], [1, 3]]) 0 (np_zeros 2 2))) 0 = Inr (0, 1)
   \<and> (0::nat) \<noteq> shape0 (matrix_of [[2, 0], [1, 3]]) - 1"
  by code_simp

lemma np_div_pos: "b \<noteq> 0 \<Longrightarrow> \<exists>q. 0 \<le> q \<and> np_div a b = Finite q \<and> np_le (Finite 0) (Finite q)"
  by (simp add: np_div_def fl64_nonneg)

lemma unat_zero_iff: "unat (w :: u16) = 0 \<longleftrightarrow> w = 0"
  by (simp add: unsigned_eq_0_iff)

section \<open>The relaxation of \<open>dtw_core\<close>\<close>

lemma u16_index_small: "k < 65536 \<Longrightarrow> u16_index k = k"
  by (simp add: u16_index_def unat_of_nat)

lemma foldl_product:
  "foldl (\<lambda>s i. foldl (\<lambda>s j. f i j s) s ys) s xs
     = foldl (\<lambda>s (i, j). f i j s) s (List.product xs ys)"
proof (induction xs arbitrary: s)
  case Nil
  show ?case by simp
next
  case (Cons x xs)
  have "foldl (\<lambda>s (i, j). f i j s) s (map (Pair x) ys) = foldl (\<lambda>s j. f x j s) s ys"
    by (induction ys arbitrary: s) simp_all
  with Cons show ?case by simp
qed

lemma dtw_core_nested:
  assumes "shape0 D \<le> 65536" and "shape1 D \<le> 65536"
  shows "dtw_core D pen P =
           foldl (\<lambda>s i. foldl (\<lambda>s j. dtw_step pen i j s) s [0..<shape1 D - 1]) (D, P)
             [0..<shape0 D - 1]"
proof -
  have inner: "foldl (\<lambda>s j. dtw_step pen (u16_index i) (u16_index j) s) s [0..<shape1 D - 1]
             = foldl (\<lambda>s j. dtw_step pen i j s) s [0..<shape1 D - 1]"
    if "i < shape0 D - 1" for i s
  proof (rule foldl_cong [OF refl refl])
    fix a x assume "x \<in> set [0..<shape1 D - 1]"
    then have "x < 65536" using assms(2) by simp
    moreover have "i < 65536" using that assms(1) by simp
    ultimately show "dtw_step pen (u16_index i) (u16_index x) a = dtw_step pen i x a"
      by (simp add: u16_index_small)
  qed
  show ?thesis
    unfolding dtw_core_def
  proof (rule foldl_cong [OF refl refl])
    fix a x assume "x \<in> set [0..<shape0 D - 1]"
    then have "x < shape0 D - 1" by simp
    then show "foldl (\<lambda>s j. dtw_step pen (u16_index x) (u16_index j) s) a [0..<shape1 D - 1]
             = foldl (\<lambda>s j. dtw_step pen x j s) a [0..<shape1 D - 1]"
      by (rule inner)
  qed
qed

lemma dtw_core_row_major:
  assumes "shape0 D \<le> 65536" and "shape1 D \<le> 65536"
  shows "dtw_core D pen P =
           foldl (\<lambda>s (i, j). dtw_step pen i j s) (D, P)
             (List.product [0..<shape0 D - 1] [0..<shape1 D - 1])"
  unfolding dtw_core_nested [OF assms] by (simp only: foldl_product)

lemma dtw_step_cells:
  "cell (fst (dtw_step pen i j (A, B))) a b =
     (if a = i + 1 \<and> b = j + 1
      then cell A (i + 1) (j + 1) +
           (if unat (cell A i j) \<le> unat (cell A i (j + 1)) + unat pen
               \<and> unat (cell A i j) \<le> unat (cell A (i + 1) j) + unat pen
            then cell A i j
            else if unat (cell A i (j + 1)) \<le> unat (cell A (i + 1) j)
               \<and> unat (cell A i (j + 1)) + unat pen \<le> unat (cell A i j)
            then cell A i (j + 1) + pen
            else if unat (cell A (i + 1) j) \<le> unat (cell A i (j + 1))
               \<and> unat (cell A (i + 1) j) + unat pen \<le> unat (cell A i j)
            then cell A (i + 1) j + pen
            else 0)
      else cell A a b)"
  "cell (snd (dtw_step pen i j (A, B))) a b =
     (if a = i + 1 \<and> b = j + 1
      then cell B (i + 1) (j + 1) +
           (if unat (cell A i j) \<le> unat (cell A i (j + 1)) + unat pen
               \<and> unat (cell A i j) \<le> unat (cell A (i + 1) j) + unat pen
            then cell B i j + 1
            else if unat (cell A i (j + 1)) \<le> unat (cell A (i + 1) j)
               \<and> unat (cell A i (j + 1)) + unat pen \<le> unat (cell A i j)
            then cell B i (j + 1) + 1
            else if unat (cell A (i + 1) j) \<le> unat (cell A i (j + 1))
               \<and> unat (cell A (i + 1) j) + unat pen \<le> unat (cell A i j)
            then cell B (i + 1) j + 1
            else 0)
      else cell B a b)"
  by (simp_all add: dtw_step_def Let_def)

lemma cum_cost_mono: "p1 \<le> p2 \<Longrightarrow> cum_cost d p1 i j \<le> cum_cost d p2 i j"
proof (induction d p1 i j rule: cum_cost.induct)
  case (1 d p j)
  show ?case by simp
next
  case (2 d p i)
  show ?case by simp
next
  case (3 d p i j)
  have a: "cum_cost d p i j \<le> cum_cost d p2 i j" using 3 by simp
  have b: "cum_cost d p i (Suc j) \<le> cum_cost d p2 i (Suc j)" using 3 by simp
  have c: "cum_cost d p (Suc i) j \<le> cum_cost d p2 (Suc i) j" using 3 by simp
  have "min (cum_cost d p i j) (min (cum_cost d p i (Suc j)) (cum_cost d p (Suc i) j) + p)
      \<le> min (cum_cost d p2 i j) (min (cum_cost d p2 i (Suc j)) (cum_cost d p2 (Suc i) j) + p2)"
    using a b c \<open>p \<le> p2\<close> by (simp add: min_def)
  then show ?case by simp
qed

lemma cum_cost_bound:
  "(\<forall>a\<le>i. \<forall>b\<le>j. d a b \<le> B) \<Longrightarrow> cum_cost d p i j \<le> B * (min i j + 1)"
proof (induction d p i j rule: cum_cost.induct)
  case (1 d p j)
  then show ?case by simp
next
  case (2 d p i)
  then show ?case by simp
next
  case (3 d p i j)
  have "\<forall>a\<le>i. \<forall>b\<le>j. d a b \<le> B" using 3(4) by simp
  then have a: "cum_cost d p i j \<le> B * (min i j + 1)" using 3(1) by blast
  have "d (Suc i) (Suc j) \<le> B" using 3(4) by simp
  then have "cum_cost d p (Suc i) (Suc j) \<le> B + B * (min i j + 1)"
    using a by (simp add: min_def)
  then show ?case by (simp add: min_def split: if_splits)
qed

lemma unat_add_small:
  "unat a + unat b < 65536 \<Longrightarrow> unat (a + b) = unat a + unat (b :: u16)"
  using unat_add_lem [of a b] by simp

lemma dtw_step_value:
  assumes "w + min x (min y z + unat pen) < 65536"
    and "unat (cell A i j) = x" and "unat (cell A i (Suc j)) = y"
    and "unat (cell A (Suc i) j) = z" and "unat (cell A (Suc i) (Suc j)) = w"
  shows "unat (cell (fst (dtw_step pen i j (A, B))) (Suc i) (Suc j))
           = w + min x (min y z + unat pen)"
proof -
  consider (diag) "x \<le> y + unat pen \<and> x \<le> z + unat pen"
    | (horiz) "\<not> (x \<le> y + unat pen \<and> x \<le> z + unat pen)" "y \<le> z \<and> y + unat pen \<le> x"
    | (vert) "\<not> (x \<le> y + unat pen \<and> x \<le> z + unat pen)" "\<not> (y \<le> z \<and> y + unat pen \<le> x)"
             "z \<le> y \<and> z + unat pen \<le> x"
    by linarith
  then show ?thesis
  proof cases
    case diag
    then have m: "min x (min y z + unat pen) = x" by (simp add: min_def)
    have "unat (cell A (Suc i) (Suc j) + cell A i j) = w + x"
      using assms m by (simp add: unat_add_small)
    with diag m show ?thesis
      by (simp add: dtw_step_cells(1) assms(2-5))
  next
    case horiz
    then have m: "min x (min y z + unat pen) = y + unat pen" by (simp add: min_def)
    have yp: "unat (cell A i (Suc j) + pen) = y + unat pen"
      using assms m by (simp add: unat_add_small)
    have "unat (cell A (Suc i) (Suc j) + (cell A i (Suc j) + pen)) = w + (y + unat pen)"
      using assms m yp by (simp add: unat_add_small)
    with horiz m show ?thesis
      by (simp add: dtw_step_cells(1) assms(2-5))
  next
    case vert
    then have m: "min x (min y z + unat pen) = z + unat pen" by (simp add: min_def)
    have zp: "unat (cell A (Suc i) j + pen) = z + unat pen"
      using assms m by (simp add: unat_add_small)
    have "unat (cell A (Suc i) (Suc j) + (cell A (Suc i) j + pen)) = w + (z + unat pen)"
      using assms m zp by (simp add: unat_add_small)
    with vert m show ?thesis
      by (auto simp add: dtw_step_cells(1) assms(2-5))
  qed
qed

lemma cum_cost_first: "cum_cost d p a 0 = d a 0"
  by (cases a) simp_all

lemma relaxed_upto_init: "relaxed_upto D p D 0 0"
  by (auto simp: relaxed_upto_def cum_cost_first)

lemma relaxed_upto_next_row:
  assumes "relaxed_upto D p S m (shape1 D - 1)"
  shows "relaxed_upto D p S (Suc m) 0"
  unfolding relaxed_upto_def
proof (intro conjI allI impI)
  show "shape0 S = shape0 D" "shape1 S = shape1 D" using assms by (simp_all add: relaxed_upto_def)
next
  fix a b assume ab: "a < shape0 D" "b < shape1 D"
  then have c: "cell S a b = (if a \<le> m \<or> (a = m + 1 \<and> b \<le> shape1 D - 1)
                      then of_nat (cum_cost (\<lambda>a b. unat (cell D a b)) p a b)
                      else cell D a b)"
    using assms by (simp add: relaxed_upto_def)
  show "cell S a b = (if a \<le> Suc m \<or> (a = Suc m + 1 \<and> b \<le> 0)
                      then of_nat (cum_cost (\<lambda>a b. unat (cell D a b)) p a b)
                      else cell D a b)"
  proof (cases "a \<le> Suc m")
    case True
    then show ?thesis using c ab by auto
  next
    case False
    then show ?thesis using c ab by (auto simp: cum_cost_first)
  qed
qed

lemma relaxed_upto_step:
  assumes inv: "relaxed_upto D (unat pen) A m n"
    and m: "Suc m < shape0 D" and n: "Suc n < shape1 D"
    and bound: "\<forall>a< shape0 D. \<forall>b< shape1 D. unat (cell D a b) \<le> B"
    and small: "B * min (shape0 D) (shape1 D) < 65536"
  shows "relaxed_upto D (unat pen) (fst (dtw_step pen m n (A, P))) m (Suc n)"
proof -
  define d where "d = (\<lambda>a b. unat (cell D a b))"
  define p where "p = unat pen"
  have cb: "cum_cost d p a b < 65536" if "a < shape0 D" "b < shape1 D" for a b
  proof -
    have "\<forall>a'\<le>a. \<forall>b'\<le>b. d a' b' \<le> B" using bound that by (simp add: d_def)
    then have "cum_cost d p a b \<le> B * (min a b + 1)" by (rule cum_cost_bound)
    also have "\<dots> \<le> B * min (shape0 D) (shape1 D)" using that by (intro mult_le_mono2) (auto simp: min_def)
    finally show ?thesis using small by simp
  qed
  have un: "unat (of_nat (cum_cost d p a b) :: u16) = cum_cost d p a b"
    if "a < shape0 D" "b < shape1 D" for a b
    using cb [OF that] by (simp add: unat_of_nat)
  have rd: "cell A a b = (if a \<le> m \<or> (a = m + 1 \<and> b \<le> n) then of_nat (cum_cost d p a b) else cell D a b)"
    if "a < shape0 D" "b < shape1 D" for a b
    using inv that by (simp add: relaxed_upto_def d_def p_def)
  have x: "unat (cell A m n) = cum_cost d p m n" using rd [of m n] un [of m n] m n by simp
  have y: "unat (cell A m (Suc n)) = cum_cost d p m (Suc n)"
    using rd [of m "Suc n"] un [of m "Suc n"] m n by simp
  have z: "unat (cell A (Suc m) n) = cum_cost d p (Suc m) n"
    using rd [of "Suc m" n] un [of "Suc m" n] m n by simp
  have w: "unat (cell A (Suc m) (Suc n)) = d (Suc m) (Suc n)"
    using rd [of "Suc m" "Suc n"] m n by (simp add: d_def)
  have tot: "d (Suc m) (Suc n) + min (cum_cost d p m n) (min (cum_cost d p m (Suc n)) (cum_cost d p (Suc m) n) + unat pen) < 65536"
    using cb [OF m n] by (simp add: p_def)
  have new: "unat (cell (fst (dtw_step pen m n (A, P))) (Suc m) (Suc n)) = cum_cost d p (Suc m) (Suc n)"
    using dtw_step_value [OF tot x y z w] by (simp add: p_def)
  have new': "cell (fst (dtw_step pen m n (A, P))) (Suc m) (Suc n) = of_nat (cum_cost d p (Suc m) (Suc n))"
    unfolding new [symmetric] by simp
  have other: "cell (fst (dtw_step pen m n (A, P))) a b = cell A a b" if "\<not> (a = Suc m \<and> b = Suc n)" for a b
    using that by (auto simp add: dtw_step_def Let_def)
  show ?thesis
    unfolding relaxed_upto_def d_def [symmetric] p_def [symmetric]
  proof (intro conjI allI impI)
    show "shape0 (fst (dtw_step pen m n (A, P))) = shape0 D"
      using inv by (simp add: relaxed_upto_def)
    show "shape1 (fst (dtw_step pen m n (A, P))) = shape1 D"
      using inv by (simp add: relaxed_upto_def)
  next
    fix a b assume ab: "a < shape0 D" "b < shape1 D"
    show "cell (fst (dtw_step pen m n (A, P))) a b =
            (if a \<le> m \<or> (a = m + 1 \<and> b \<le> Suc n) then of_nat (cum_cost d p a b) else cell D a b)"
    proof (cases "a = Suc m \<and> b = Suc n")
      case True
      then show ?thesis using new' by simp
    next
      case False
      then have "cell (fst (dtw_step pen m n (A, P))) a b = cell A a b" by (rule other)
      also have "\<dots> = (if a \<le> m \<or> (a = m + 1 \<and> b \<le> n) then of_nat (cum_cost d p a b) else cell D a b)"
        by (rule rd [OF ab])
      also have "\<dots> = (if a \<le> m \<or> (a = m + 1 \<and> b \<le> Suc n) then of_nat (cum_cost d p a b) else cell D a b)"
        using False by auto
      finally show ?thesis .
    qed
  qed
qed

lemma cum_cost_small:
  assumes bound: "\<forall>a < shape0 D. \<forall>b < shape1 D. unat (cell D a b) \<le> B"
    and small: "B * min (shape0 D) (shape1 D) < 65536"
    and "a < shape0 D" and "b < shape1 D"
  shows "cum_cost (\<lambda>a b. unat (cell D a b)) p a b < 65536"
proof -
  have "\<forall>a'\<le>a. \<forall>b'\<le>b. unat (cell D a' b') \<le> B" using bound assms(3,4) by simp
  then have "cum_cost (\<lambda>a b. unat (cell D a b)) p a b \<le> B * (min a b + 1)"
    by (rule cum_cost_bound)
  also have "\<dots> \<le> B * min (shape0 D) (shape1 D)"
    using assms(3,4) by (intro mult_le_mono2) (auto simp: min_def)
  finally show ?thesis using small by simp
qed

lemma relaxed_row:
  assumes inv: "relaxed_upto D (unat pen) (fst s) m 0"
    and m: "Suc m < shape0 D"
    and bound: "\<forall>a < shape0 D. \<forall>b < shape1 D. unat (cell D a b) \<le> B"
    and small: "B * min (shape0 D) (shape1 D) < 65536"
    and k: "k \<le> shape1 D - 1"
  shows "relaxed_upto D (unat pen) (fst (foldl (\<lambda>s j. dtw_step pen m j s) s [0..<k])) m k"
  using k
proof (induction k)
  case 0
  show ?case using inv by simp
next
  case (Suc k)
  define s' where "s' = foldl (\<lambda>s j. dtw_step pen m j s) s [0..<k]"
  have i: "relaxed_upto D (unat pen) (fst s') m k" using Suc by (simp add: s'_def)
  have n: "Suc k < shape1 D" using Suc.prems by simp
  have "relaxed_upto D (unat pen) (fst (dtw_step pen m k (fst s', snd s'))) m (Suc k)"
    by (rule relaxed_upto_step [OF i m n bound small])
  then show ?case by (simp add: s'_def)
qed

lemma relaxed_all:
  assumes bound: "\<forall>a < shape0 D. \<forall>b < shape1 D. unat (cell D a b) \<le> B"
    and small: "B * min (shape0 D) (shape1 D) < 65536"
    and k: "k \<le> shape0 D - 1"
  shows "relaxed_upto D (unat pen)
           (fst (foldl (\<lambda>s i. foldl (\<lambda>s j. dtw_step pen i j s) s [0..<shape1 D - 1]) (D, P) [0..<k]))
           k 0"
  using k
proof (induction k)
  case 0
  show ?case by (simp add: relaxed_upto_init)
next
  case (Suc k)
  define s' where
    "s' = foldl (\<lambda>s i. foldl (\<lambda>s j. dtw_step pen i j s) s [0..<shape1 D - 1]) (D, P) [0..<k]"
  have i: "relaxed_upto D (unat pen) (fst s') k 0" using Suc by (simp add: s'_def)
  have m: "Suc k < shape0 D" using Suc.prems by simp
  have "relaxed_upto D (unat pen)
          (fst (foldl (\<lambda>s j. dtw_step pen k j s) s' [0..<shape1 D - 1])) k (shape1 D - 1)"
    by (rule relaxed_row [OF i m bound small order_refl])
  then have "relaxed_upto D (unat pen)
          (fst (foldl (\<lambda>s j. dtw_step pen k j s) s' [0..<shape1 D - 1])) (Suc k) 0"
    by (rule relaxed_upto_next_row)
  then show ?case by (simp add: s'_def)
qed

lemma dtw_core_cum_cost:
  assumes "shape0 D \<le> 65536" and "shape1 D \<le> 65536"
    and bound: "\<forall>a < shape0 D. \<forall>b < shape1 D. unat (cell D a b) \<le> B"
    and small: "B * min (shape0 D) (shape1 D) < 65536"
    and a: "a < shape0 D" and b: "b < shape1 D"
  shows "unat (cell (fst (dtw_core D pen P)) a b)
           = cum_cost (\<lambda>a b. unat (cell D a b)) (unat pen) a b"
proof -
  have "relaxed_upto D (unat pen) (fst (dtw_core D pen P)) (shape0 D - 1) 0"
    unfolding dtw_core_nested [OF assms(1,2)]
    by (rule relaxed_all [OF bound small order_refl])
  moreover have "a \<le> shape0 D - 1" using a by simp
  ultimately have "cell (fst (dtw_core D pen P)) a b
                     = of_nat (cum_cost (\<lambda>a b. unat (cell D a b)) (unat pen) a b)"
    using a b by (simp add: relaxed_upto_def)
  then show ?thesis
    using cum_cost_small [OF bound small a b, of "unat pen"] by (simp add: unat_of_nat)
qed

lemma dtw_core_mono:
  assumes "shape0 D \<le> 65536" and "shape1 D \<le> 65536"
    and bound: "\<forall>a < shape0 D. \<forall>b < shape1 D. unat (cell D a b) \<le> B"
    and small: "B * min (shape0 D) (shape1 D) < 65536"
    and a: "a < shape0 D" and b: "b < shape1 D"
    and p: "p1 \<le> p2"
  shows "cell (fst (dtw_core D p1 P)) a b \<le> cell (fst (dtw_core D p2 P)) a b"
proof -
  have "unat p1 \<le> unat p2" using p by (simp add: word_le_nat_alt)
  then have "cum_cost (\<lambda>a b. unat (cell D a b)) (unat p1) a b
           \<le> cum_cost (\<lambda>a b. unat (cell D a b)) (unat p2) a b"
    by (rule cum_cost_mono)
  then show ?thesis
    by (simp add: word_le_nat_alt dtw_core_cum_cost [OF assms(1-6)])
qed

lemma dtw_step_other:
  assumes "\<not> (a = Suc i \<and> b = Suc j)"
  shows "cell (fst (dtw_step pen i j s)) a b = cell (fst s) a b"
    and "cell (snd (dtw_step pen i j s)) a b = cell (snd s) a b"
  using assms by (auto simp add: dtw_step_def Let_def)

lemma steps_frame_row:
  assumes "\<And>j. \<not> (a = Suc i \<and> b = Suc (g j))"
  shows "cell (fst (foldl (\<lambda>s j. dtw_step pen i (g j) s) s ys)) a b = cell (fst s) a b
       \<and> cell (snd (foldl (\<lambda>s j. dtw_step pen i (g j) s) s ys)) a b = cell (snd s) a b"
proof (induction ys arbitrary: s)
  case Nil
  show ?case by simp
next
  case (Cons y ys)
  show ?case using Cons [of "dtw_step pen i (g y) s"] assms [of y] by (simp add: dtw_step_other)
qed

lemma steps_frame_both:
  assumes "\<And>i j. i \<in> set xs \<Longrightarrow> \<not> (a = Suc (f i) \<and> b = Suc (g j))"
  shows "cell (fst (foldl (\<lambda>s i. foldl (\<lambda>s j. dtw_step pen (f i) (g j) s) s ys) s xs)) a b
           = cell (fst s) a b
       \<and> cell (snd (foldl (\<lambda>s i. foldl (\<lambda>s j. dtw_step pen (f i) (g j) s) s ys) s xs)) a b
           = cell (snd s) a b"
  using assms
proof (induction xs arbitrary: s)
  case Nil
  show ?case by simp
next
  case (Cons x xs)
  have row: "\<not> (a = Suc (f x) \<and> b = Suc (g j))" for j
    by (rule Cons.prems) simp
  have rest: "\<not> (a = Suc (f i) \<and> b = Suc (g j))" if "i \<in> set xs" for i j
    by (rule Cons.prems) (simp add: that)
  show ?case
    using Cons.IH [OF rest, of "foldl (\<lambda>s j. dtw_step pen (f x) (g j) s) s ys"]
      steps_frame_row [of a "f x" b g pen s ys, OF row]
    by simp
qed

lemmas steps_frame = steps_frame_both [THEN conjunct1] steps_frame_both [THEN conjunct2]

lemma u16_index_less: "u16_index k < 65536"
  using unsigned_less [of "of_nat k :: u16", where 'a = nat] by (simp add: u16_index_def)

lemma spec_dtw_core_nested:
  "spec_dtw_core D pen P =
     foldl (\<lambda>s i. foldl (\<lambda>s j. dtw_step pen i j s) s [0..<shape1 D - 1]) (D, P)
       [0..<shape0 D - 1]"
  by (simp only: spec_dtw_core_def foldl_product)

text \<open>
  Claim C2, as stated: \<open>dtw_core\<close> visits every cell \<open>(i + 1, j + 1)\<close> in row-major order,
  \<open>i\<close> from \<open>0\<close> to \<open>rows - 2\<close> and \<open>j\<close> from \<open>0\<close> to \<open>cols - 2\<close>. The counters \<open>i\<close> and \<open>j\<close>
  are \<open>uint16\<close>: on the matrix of zeros with \<open>65538\<close> rows and \<open>2\<close> columns the counter
  \<open>i\<close> returns to \<open>0\<close> after \<open>65535\<close>, the cell \<open>(65537, 1)\<close> is never visited and its path
  length stays \<open>0\<close>, where the row-major visit leaves \<open>1\<close>.
\<close>

theorem dtw_core_counter_wraps_counterexample:
  "cell (snd (dtw_core (np_zeros 65538 2) 0 (np_zeros 65538 2))) 65537 1 = 0
   \<and> cell (snd (spec_dtw_core (np_zeros 65538 2) 0 (np_zeros 65538 2))) 65537 1 = 1"
proof
  have "cell (snd (dtw_core (np_zeros 65538 2) 0 (np_zeros 65538 2))) 65537 1
          = cell (snd (np_zeros 65538 2, np_zeros 65538 2)) 65537 1"
    unfolding dtw_core_def
  proof (rule steps_frame(2))
    fix i j :: nat
    have "u16_index i < 65536" by (rule u16_index_less)
    then show "\<not> (65537 = Suc (u16_index i) \<and> 1 = Suc (u16_index j))" by simp
  qed
  then show "cell (snd (dtw_core (np_zeros 65538 2) 0 (np_zeros 65538 2))) 65537 1 = 0"
    by (simp add: np_zeros_def)
next
  define Z where "Z = np_zeros 65538 2"
  define S where "S = foldl (\<lambda>s i. foldl (\<lambda>s j. dtw_step 0 i j s) s [0]) (Z, Z) [0..<65536]"
  have sh0: "shape0 Z - 1 = Suc 65536" and sh1: "shape1 Z - 1 = Suc 0" by (simp_all add: Z_def)
  have l0: "[0..<Suc 65536] = [0..<65536] @ [65536]" by (rule upt_Suc_append) simp
  have l1: "[0..<Suc 0] = [0]" by simp
  have spec: "spec_dtw_core Z 0 Z = dtw_step 0 65536 0 S"
    unfolding spec_dtw_core_nested sh0 sh1 l0 l1 S_def by (simp only: foldl_append foldl.simps)
  have fr: "cell (fst S) a b = cell (fst (Z, Z)) a b" "cell (snd S) a b = cell (snd (Z, Z)) a b"
    if "b = 0 \<or> a = 65537" for a b
  proof -
    have c: "\<not> (a = Suc i \<and> b = Suc j)" if "i \<in> set [0..<65536]" for i j :: nat
    proof -
      have "i < 65536" using that by (simp only: set_upt atLeastLessThan_iff)
      then show ?thesis using \<open>b = 0 \<or> a = 65537\<close> by auto
    qed
    show "cell (fst S) a b = cell (fst (Z, Z)) a b" unfolding S_def
      by (rule steps_frame(1) [where f = "\<lambda>i. i" and g = "\<lambda>j. j"]) (rule c)
    show "cell (snd S) a b = cell (snd (Z, Z)) a b" unfolding S_def
      by (rule steps_frame(2) [where f = "\<lambda>i. i" and g = "\<lambda>j. j"]) (rule c)
  qed
  have z: "cell Z a b = 0" for a b by (simp add: Z_def np_zeros_def)
  have A: "cell (fst S) 65536 0 = 0" using fr(1) [of 0 65536] by (simp add: z)
  have B0: "cell (snd S) 65536 0 = 0" using fr(2) [of 0 65536] by (simp add: z)
  have B1: "cell (snd S) 65537 1 = 0" using fr(2) [of 1 65537] by (simp add: z)
  have "cell (snd (dtw_step 0 65536 0 (fst S, snd S))) 65537 1 = 1"
    unfolding dtw_step_cells(2) using A B0 B1 by simp
  then have "cell (snd (spec_dtw_core Z 0 Z)) 65537 1 = 1" unfolding spec by simp
  then show "cell (snd (spec_dtw_core (np_zeros 65538 2) 0 (np_zeros 65538 2))) 65537 1 = 1"
    unfolding Z_def .
qed

text \<open>
  Claim C2, amended: for a matrix of at most \<open>65536\<close> rows and at most \<open>65536\<close> columns,
  \<open>dtw_core\<close> visits the cells \<open>(i + 1, j + 1)\<close> in row-major order, \<open>i\<close> from
  \<open>0\<close> to \<open>rows - 2\<close> and \<open>j\<close> from \<open>0\<close> to \<open>cols - 2\<close>. A step changes only the cell
  \<open>(i + 1, j + 1)\<close> of \<open>D\<close> and of \<open>path_length\<close>: the diagonal update when
  \<open>D[i,j] <= D[i,j+1] + pen\<close> and \<open>D[i,j] <= D[i+1,j] + pen\<close>, otherwise the horizontal update
  under its guard, otherwise the vertical update under its guard, and nothing when no guard
  holds.
\<close>

theorem dtw_core_relaxation:
  assumes "shape0 D \<le> 65536" and "shape1 D \<le> 65536"
  shows "dtw_core D pen P =
           foldl (\<lambda>s (i, j). dtw_step pen i j s) (D, P)
             (List.product [0..<shape0 D - 1] [0..<shape1 D - 1])
       \<and> cell (fst (dtw_step pen i j (A, B))) a b =
           (if a = i + 1 \<and> b = j + 1
            then cell A (i + 1) (j + 1) +
                 (if unat (cell A i j) \<le> unat (cell A i (j + 1)) + unat pen
                     \<and> unat (cell A i j) \<le> unat (cell A (i + 1) j) + unat pen
                  then cell A i j
                  else if unat (cell A i (j + 1)) \<le> unat (cell A (i + 1) j)
                     \<and> unat (cell A i (j + 1)) + unat pen \<le> unat (cell A i j)
                  then cell A i (j + 1) + pen
                  else if unat (cell A (i + 1) j) \<le> unat (cell A i (j + 1))
                     \<and> unat (cell A (i + 1) j) + unat pen \<le> unat (cell A i j)
                  then cell A (i + 1) j + pen
                  else 0)
            else cell A a b)
       \<and> cell (snd (dtw_step pen i j (A, B))) a b =
           (if a = i + 1 \<and> b = j + 1
            then cell B (i + 1) (j + 1) +
                 (if unat (cell A i j) \<le> unat (cell A i (j + 1)) + unat pen
                     \<and> unat (cell A i j) \<le> unat (cell A (i + 1) j) + unat pen
                  then cell B i j + 1
                  else if unat (cell A i (j + 1)) \<le> unat (cell A (i + 1) j)
                     \<and> unat (cell A i (j + 1)) + unat pen \<le> unat (cell A i j)
                  then cell B i (j + 1) + 1
                  else if unat (cell A (i + 1) j) \<le> unat (cell A i (j + 1))
                     \<and> unat (cell A (i + 1) j) + unat pen \<le> unat (cell A i j)
                  then cell B (i + 1) j + 1
                  else 0)
            else cell B a b)"
proof (intro conjI)
  show "dtw_core D pen P =
           foldl (\<lambda>s (i, j). dtw_step pen i j s) (D, P)
             (List.product [0..<shape0 D - 1] [0..<shape1 D - 1])"
    by (rule dtw_core_row_major [OF assms])
qed (rule dtw_step_cells)+

theorem dtw_core_relaxation_witness:
  "cell (fst (dtw_core (matrix_of [[1, 0], [1, 1]]) 0 (np_zeros 2 2))) 1 1 = 1
   \<and> cell (snd (dtw_core (matrix_of [[1, 0], [1, 1]]) 0 (np_zeros 2 2))) 1 1 = 1"
proof -
  have h1: "shape0 (matrix_of [[1, 0], [1, 1]]) \<le> 65536" by (simp add: matrix_of_def)
  have h2: "shape1 (matrix_of [[1, 0], [1, 1]]) \<le> 65536" by (simp add: matrix_of_def)
  have e: "cell (fst (dtw_core (matrix_of [[1, 0], [1, 1]]) 0 (np_zeros 2 2))) 1 1 = 1
   \<and> cell (snd (dtw_core (matrix_of [[1, 0], [1, 1]]) 0 (np_zeros 2 2))) 1 1 = 1"
    by code_simp
  from dtw_core_relaxation [OF h1 h2, where pen = 0 and P = "np_zeros 2 2" and i = 0 and j = 0
      and A = "matrix_of [[1, 0], [1, 1]]" and B = "np_zeros 2 2" and a = 1 and b = 1] e
  show ?thesis by simp
qed

text \<open>
  Claim C7, as stated: for a fixed matrix and gully the score does not decrease when the
  penalty grows. On \<open>[[0, 0, 0], [1, 1, 1], [0, 1, 0]]\<close> with gully \<open>1/2\<close> the score is \<open>1\<close>
  for penalty \<open>0\<close> and \<open>1/2\<close> for penalty \<open>1\<close>: the larger penalty moves the endpoint to a cell
  of the same cost and a longer path.
\<close>

theorem dtw_penalty_monotone_counterexample:
  "dtw (matrix_of [[0, 0, 0], [1, 1, 1], [0, 1, 0]]) (1 / 2) 0 = Inr (Finite 1)
   \<and> dtw (matrix_of [[0, 0, 0], [1, 1, 1], [0, 1, 0]]) (1 / 2) 1 = Inr (Finite (1 / 2))
   \<and> (0 :: u16) \<le> 1
   \<and> \<not> np_le (Finite 1) (Finite (1 / 2))"
  by code_simp

text \<open>
  Claim C7, amended: for a fixed matrix and float gully in \<open>[0, 1)\<close>, the cumulative cost at the
  selected endpoint (the score before the division by the path length) does not decrease
  when the penalty grows, provided no store wraps around: the matrix has between \<open>1\<close> and
  \<open>65536\<close> rows and columns, its entries are at most \<open>B\<close>, and \<open>B * min(rows, cols) < 65536\<close>.
\<close>

theorem dtw_endpoint_cost_monotone:
  assumes r1: "1 \<le> shape0 D" and c1: "1 \<le> shape1 D"
    and r2: "shape0 D \<le> 65536" and c2: "shape1 D \<le> 65536"
    and g0: "0 \<le> gully" and g1: "gully < 1" and gf: "fl64 gully = gully"
    and bound: "\<forall>a < shape0 D. \<forall>b < shape1 D. unat (cell D a b) \<le> B"
    and small: "B * min (shape0 D) (shape1 D) < 65536"
    and p: "p1 \<le> p2"
  shows "\<exists>i1 j1 i2 j2.
           dtw_endpoint (fst (dtw_core D p1 (np_zeros (shape0 D) (shape1 D)))) gully = Inr (i1, j1)
         \<and> dtw_endpoint (fst (dtw_core D p2 (np_zeros (shape0 D) (shape1 D)))) gully = Inr (i2, j2)
         \<and> cell (fst (dtw_core D p1 (np_zeros (shape0 D) (shape1 D)))) i1 j1
             \<le> cell (fst (dtw_core D p2 (np_zeros (shape0 D) (shape1 D)))) i2 j2"
proof -
  define Z where "Z = np_zeros (shape0 D) (shape1 D)"
  define D1 where "D1 = fst (dtw_core D p1 Z)"
  define D2 where "D2 = fst (dtw_core D p2 Z)"
  define g where "g = nat \<lfloor>fl64 (gully * of_nat (min (shape0 D) (shape1 D)))\<rfloor>"
  have sh: "shape0 D1 = shape0 D" "shape1 D1 = shape1 D" "shape0 D2 = shape0 D" "shape1 D2 = shape1 D"
    by (simp_all add: D1_def D2_def)
  have mono: "cell D1 a b \<le> cell D2 a b" if "a < shape0 D" "b < shape1 D" for a b
    unfolding D1_def D2_def by (rule dtw_core_mono [OF r2 c2 bound small that p])
  from dtw_endpoint_char [of D1 gully] r1 c1 g0 g1 gf
  obtain a1 b1 where e1:
    "first_min_at (\<lambda>k. cell D1 k (shape1 D - 1)) g (shape0 D) a1"
    "first_min_at (\<lambda>k. cell D1 (shape0 D - 1) k) g (shape1 D) b1"
    "dtw_endpoint D1 gully =
       Inr (if unat (cell D1 (shape0 D - 1) b1) > unat (cell D1 a1 (shape1 D - 1))
            then (a1, shape1 D - 1) else (shape0 D - 1, b1))"
    unfolding sh g_def by blast
  from dtw_endpoint_char [of D2 gully] r1 c1 g0 g1 gf
  obtain a2 b2 where e2:
    "first_min_at (\<lambda>k. cell D2 k (shape1 D - 1)) g (shape0 D) a2"
    "first_min_at (\<lambda>k. cell D2 (shape0 D - 1) k) g (shape1 D) b2"
    "dtw_endpoint D2 gully =
       Inr (if unat (cell D2 (shape0 D - 1) b2) > unat (cell D2 a2 (shape1 D - 1))
            then (a2, shape1 D - 1) else (shape0 D - 1, b2))"
    unfolding sh g_def by blast
  define i1 where "i1 = (if unat (cell D1 (shape0 D - 1) b1) > unat (cell D1 a1 (shape1 D - 1)) then a1 else shape0 D - 1)"
  define j1 where "j1 = (if unat (cell D1 (shape0 D - 1) b1) > unat (cell D1 a1 (shape1 D - 1)) then shape1 D - 1 else b1)"
  define i2 where "i2 = (if unat (cell D2 (shape0 D - 1) b2) > unat (cell D2 a2 (shape1 D - 1)) then a2 else shape0 D - 1)"
  define j2 where "j2 = (if unat (cell D2 (shape0 D - 1) b2) > unat (cell D2 a2 (shape1 D - 1)) then shape1 D - 1 else b2)"
  have ep1: "dtw_endpoint D1 gully = Inr (i1, j1)" using e1(3) by (simp add: i1_def j1_def)
  have ep2: "dtw_endpoint D2 gully = Inr (i2, j2)" using e2(3) by (simp add: i2_def j2_def)
  have rng: "g \<le> a2" "a2 < shape0 D" "g \<le> b2" "b2 < shape1 D"
    using e2(1,2) by (simp_all add: first_min_at_def)
  have lastc: "shape1 D - 1 < shape1 D" and lastr: "shape0 D - 1 < shape0 D" using r1 c1 by simp_all
  have col1: "cell D1 a1 (shape1 D - 1) \<le> cell D1 a2 (shape1 D - 1)"
    using e1(1) rng by (simp add: first_min_at_def)
  have row1: "cell D1 (shape0 D - 1) b1 \<le> cell D1 (shape0 D - 1) b2"
    using e1(2) rng by (simp add: first_min_at_def)
  have c1le: "cell D1 i1 j1 \<le> cell D1 a1 (shape1 D - 1)"
    by (simp add: i1_def j1_def word_le_nat_alt)
  have r1le: "cell D1 i1 j1 \<le> cell D1 (shape0 D - 1) b1"
    by (simp add: i1_def j1_def word_le_nat_alt)
  have "cell D1 i1 j1 \<le> cell D2 i2 j2"
  proof (cases "unat (cell D2 (shape0 D - 1) b2) > unat (cell D2 a2 (shape1 D - 1))")
    case True
    then have "cell D2 i2 j2 = cell D2 a2 (shape1 D - 1)" by (simp add: i2_def j2_def)
    moreover have "cell D1 a2 (shape1 D - 1) \<le> cell D2 a2 (shape1 D - 1)"
      by (rule mono [OF rng(2) lastc])
    ultimately show ?thesis using c1le col1 by simp
  next
    case False
    then have "cell D2 i2 j2 = cell D2 (shape0 D - 1) b2" by (simp add: i2_def j2_def)
    moreover have "cell D1 (shape0 D - 1) b2 \<le> cell D2 (shape0 D - 1) b2"
      by (rule mono [OF lastr rng(4)])
    ultimately show ?thesis using r1le row1 by simp
  qed
  with ep1 ep2 show ?thesis unfolding D1_def D2_def Z_def by blast
qed

theorem dtw_endpoint_cost_monotone_witness:
  "dtw_endpoint (fst (dtw_core (matrix_of [[0, 0, 0], [1, 1, 1], [0, 1, 0]]) 0 (np_zeros 3 3))) (1 / 2)
     = Inr (2, 1)
   \<and> dtw_endpoint (fst (dtw_core (matrix_of [[0, 0, 0], [1, 1, 1], [0, 1, 0]]) 1 (np_zeros 3 3))) (1 / 2)
     = Inr (2, 2)
   \<and> cell (fst (dtw_core (matrix_of [[0, 0, 0], [1, 1, 1], [0, 1, 0]]) 0 (np_zeros 3 3))) 2 1
     \<le> cell (fst (dtw_core (matrix_of [[0, 0, 0], [1, 1, 1], [0, 1, 0]]) 1 (np_zeros 3 3))) 2 2"
proof -
  define M where "M = matrix_of [[0, 0, 0], [1, 1, 1], [0, 1, 0]]"
  have sh: "shape0 M = 3" "shape1 M = 3" by (simp_all add: M_def matrix_of_def)
  have h1: "1 \<le> shape0 M" and h2: "1 \<le> shape1 M"
    and h3: "shape0 M \<le> 65536" and h4: "shape1 M \<le> 65536" by (simp_all add: sh)
  have h5: "(0::rat) \<le> 1 / 2" and h6: "(1::rat) / 2 < 1" by simp_all
  have hf: "fl64 (1 / 2) = 1 / 2" by code_simp
  have h7: "\<forall>a < shape0 M. \<forall>b < shape1 M. unat (cell M a b) \<le> 1"
    unfolding sh by (auto simp: M_def matrix_of_def less_Suc_eq numeral_3_eq_3)
  have h8: "1 * min (shape0 M) (shape1 M) < 65536" by (simp add: sh)
  have h9: "(0::u16) \<le> 1" by simp
  have e: "dtw_endpoint (fst (dtw_core (matrix_of [[0, 0, 0], [1, 1, 1], [0, 1, 0]]) 0 (np_zeros 3 3))) (1 / 2)
     = Inr (2, 1)
   \<and> dtw_endpoint (fst (dtw_core (matrix_of [[0, 0, 0], [1, 1, 1], [0, 1, 0]]) 1 (np_zeros 3 3))) (1 / 2)
     = Inr (2, 2)
   \<and> cell (fst (dtw_core (matrix_of [[0, 0, 0], [1, 1, 1], [0, 1, 0]]) 0 (np_zeros 3 3))) 2 1
     \<le> cell (fst (dtw_core (matrix_of [[0, 0, 0], [1, 1, 1], [0, 1, 0]]) 1 (np_zeros 3 3))) 2 2"
    by code_simp
  from dtw_endpoint_cost_monotone [OF h1 h2 h3 h4 h5 h6 hf h7 h8 h9] e show ?thesis by simp
qed

section \<open>The path length at the endpoint\<close>

lemma counted_uptoD:
  assumes "counted_upto r c P m n" and "a < r" and "b < c"
  shows "if (a \<le> m \<or> (a = m + 1 \<and> b \<le> n)) \<and> 1 \<le> a \<and> 1 \<le> b
         then 1 \<le> unat (cell P a b) \<and> unat (cell P a b) \<le> a + b
         else cell P a b = 0"
  using assms unfolding counted_upto_def by blast

lemma counted_bound:
  assumes "counted_upto r c P m n" and "a < r" and "b < c"
  shows "unat (cell P a b) \<le> a + b"
proof -
  have "if (a \<le> m \<or> (a = m + 1 \<and> b \<le> n)) \<and> 1 \<le> a \<and> 1 \<le> b
        then 1 \<le> unat (cell P a b) \<and> unat (cell P a b) \<le> a + b
        else cell P a b = 0"
    by (rule counted_uptoD [OF assms])
  then show ?thesis by (auto split: if_splits)
qed

lemma dtw_step_path:
  "cell (snd (dtw_step pen i j (A, B))) (Suc i) (Suc j) = cell B (Suc i) (Suc j) + (cell B i j + 1)
   \<or> cell (snd (dtw_step pen i j (A, B))) (Suc i) (Suc j) = cell B (Suc i) (Suc j) + (cell B i (Suc j) + 1)
   \<or> cell (snd (dtw_step pen i j (A, B))) (Suc i) (Suc j) = cell B (Suc i) (Suc j) + (cell B (Suc i) j + 1)"
proof -
  define x where "x = unat (cell A i j)"
  define y where "y = unat (cell A i (Suc j))"
  define z where "z = unat (cell A (Suc i) j)"
  consider (diag) "x \<le> y + unat pen \<and> x \<le> z + unat pen"
    | (horiz) "\<not> (x \<le> y + unat pen \<and> x \<le> z + unat pen)" "y \<le> z \<and> y + unat pen \<le> x"
    | (vert) "\<not> (x \<le> y + unat pen \<and> x \<le> z + unat pen)" "\<not> (y \<le> z \<and> y + unat pen \<le> x)"
             "z \<le> y \<and> z + unat pen \<le> x"
    by linarith
  then show ?thesis
  proof cases
    case diag
    then show ?thesis by (simp add: dtw_step_cells(2) x_def y_def z_def)
  next
    case horiz
    then show ?thesis by (simp add: dtw_step_cells(2) x_def y_def z_def)
  next
    case vert
    then show ?thesis by (auto simp add: dtw_step_cells(2) x_def y_def z_def)
  qed
qed

lemma unat_succ_small: "unat (k :: u16) + 1 < 65536 \<Longrightarrow> unat (k + 1) = unat k + 1"
  using unat_add_lem [of k 1] by simp

lemma counted_upto_step:
  assumes inv: "counted_upto r c B m n"
    and m: "Suc m < r" and n: "Suc n < c" and small: "r + c \<le> 65536"
  shows "counted_upto r c (snd (dtw_step pen m n (A, B))) m (Suc n)"
proof -
  let ?B' = "snd (dtw_step pen m n (A, B))"
  have old: "cell B (Suc m) (Suc n) = 0"
  proof -
    have "if (Suc m \<le> m \<or> (Suc m = m + 1 \<and> Suc n \<le> n)) \<and> 1 \<le> Suc m \<and> 1 \<le> Suc n
          then 1 \<le> unat (cell B (Suc m) (Suc n)) \<and> unat (cell B (Suc m) (Suc n)) \<le> Suc m + Suc n
          else cell B (Suc m) (Suc n) = 0"
      by (rule counted_uptoD [OF inv m n])
    then show ?thesis by simp
  qed
  have b1: "unat (cell B m n) \<le> m + n" using counted_bound [OF inv, of m n] m n by simp
  have b2: "unat (cell B m (Suc n)) \<le> m + Suc n" using counted_bound [OF inv, of m "Suc n"] m n by simp
  have b3: "unat (cell B (Suc m) n) \<le> Suc m + n" using counted_bound [OF inv, of "Suc m" n] m n by simp
  have succ: "unat (k + 1) = unat k + 1" if "unat k \<le> Suc (m + n)" for k :: u16
    using that m n small by (intro unat_succ_small) simp
  have new: "1 \<le> unat (cell ?B' (Suc m) (Suc n)) \<and> unat (cell ?B' (Suc m) (Suc n)) \<le> Suc m + Suc n"
    using dtw_step_path [of pen m n A B] b1 b2 b3
    by (auto simp add: old succ)
  have other: "cell ?B' a b = cell B a b" if "\<not> (a = Suc m \<and> b = Suc n)" for a b
    using dtw_step_other(2) [OF that, of pen "(A, B)"] by simp
  show ?thesis
    unfolding counted_upto_def
  proof (intro allI impI)
    fix a b assume ab: "a < r" "b < c"
    have i: "if (a \<le> m \<or> (a = m + 1 \<and> b \<le> n)) \<and> 1 \<le> a \<and> 1 \<le> b
          then 1 \<le> unat (cell B a b) \<and> unat (cell B a b) \<le> a + b
          else cell B a b = 0"
      by (rule counted_uptoD [OF inv ab])
    show "if (a \<le> m \<or> (a = m + 1 \<and> b \<le> Suc n)) \<and> 1 \<le> a \<and> 1 \<le> b
          then 1 \<le> unat (cell ?B' a b) \<and> unat (cell ?B' a b) \<le> a + b
          else cell ?B' a b = 0"
    proof (cases "a = Suc m \<and> b = Suc n")
      case True
      then show ?thesis using new by simp
    next
      case False
      have eq: "((a \<le> m \<or> (a = m + 1 \<and> b \<le> Suc n)) \<and> 1 \<le> a \<and> 1 \<le> b)
              = ((a \<le> m \<or> (a = m + 1 \<and> b \<le> n)) \<and> 1 \<le> a \<and> 1 \<le> b)"
        using False by auto
      show ?thesis unfolding other [OF False] eq by (rule i)
    qed
  qed
qed

lemma counted_upto_next_row:
  assumes "counted_upto r c P m (c - 1)"
  shows "counted_upto r c P (Suc m) 0"
  unfolding counted_upto_def
proof (intro allI impI)
  fix a b assume ab: "a < r" "b < c"
  have i: "if (a \<le> m \<or> (a = m + 1 \<and> b \<le> c - 1)) \<and> 1 \<le> a \<and> 1 \<le> b
        then 1 \<le> unat (cell P a b) \<and> unat (cell P a b) \<le> a + b
        else cell P a b = 0"
    by (rule counted_uptoD [OF assms ab])
  have eq: "((a \<le> Suc m \<or> (a = Suc m + 1 \<and> b \<le> 0)) \<and> 1 \<le> a \<and> 1 \<le> b)
          = ((a \<le> m \<or> (a = m + 1 \<and> b \<le> c - 1)) \<and> 1 \<le> a \<and> 1 \<le> b)"
    using ab by auto
  show "if (a \<le> Suc m \<or> (a = Suc m + 1 \<and> b \<le> 0)) \<and> 1 \<le> a \<and> 1 \<le> b
        then 1 \<le> unat (cell P a b) \<and> unat (cell P a b) \<le> a + b
        else cell P a b = 0"
    unfolding eq by (rule i)
qed

lemma counted_row:
  assumes inv: "counted_upto r c (snd s) m 0"
    and m: "Suc m < r" and small: "r + c \<le> 65536" and k: "k \<le> c - 1"
  shows "counted_upto r c (snd (foldl (\<lambda>s j. dtw_step pen m j s) s [0..<k])) m k"
  using k
proof (induction k)
  case 0
  show ?case using inv by simp
next
  case (Suc k)
  define s' where "s' = foldl (\<lambda>s j. dtw_step pen m j s) s [0..<k]"
  have i: "counted_upto r c (snd s') m k" using Suc by (simp add: s'_def)
  have n: "Suc k < c" using Suc.prems by simp
  have "counted_upto r c (snd (dtw_step pen m k (fst s', snd s'))) m (Suc k)"
    by (rule counted_upto_step [OF i m n small])
  then show ?case by (simp add: s'_def)
qed

lemma counted_all:
  assumes small: "r + c \<le> 65536" and k: "k \<le> r - 1"
  shows "counted_upto r c
           (snd (foldl (\<lambda>s i. foldl (\<lambda>s j. dtw_step pen i j s) s [0..<c - 1]) (D, np_zeros r c) [0..<k]))
           k 0"
  using k
proof (induction k)
  case 0
  show ?case unfolding counted_upto_def by (auto simp add: np_zeros_def)
next
  case (Suc k)
  define s' where
    "s' = foldl (\<lambda>s i. foldl (\<lambda>s j. dtw_step pen i j s) s [0..<c - 1]) (D, np_zeros r c) [0..<k]"
  have i: "counted_upto r c (snd s') k 0" using Suc by (simp add: s'_def)
  have m: "Suc k < r" using Suc.prems by simp
  have "counted_upto r c (snd (foldl (\<lambda>s j. dtw_step pen k j s) s' [0..<c - 1])) k (c - 1)"
    by (rule counted_row [OF i m small order_refl])
  then have "counted_upto r c (snd (foldl (\<lambda>s j. dtw_step pen k j s) s' [0..<c - 1])) (Suc k) 0"
    by (rule counted_upto_next_row)
  then show ?case by (simp add: s'_def)
qed

lemma dtw_core_path_length:
  assumes small: "shape0 D + shape1 D \<le> 65536"
    and a: "1 \<le> a" "a < shape0 D" and b: "1 \<le> b" "b < shape1 D"
  shows "cell (snd (dtw_core D pen (np_zeros (shape0 D) (shape1 D)))) a b \<noteq> 0"
proof -
  have r: "shape0 D \<le> 65536" and c: "shape1 D \<le> 65536" using small by simp_all
  have "counted_upto (shape0 D) (shape1 D)
          (snd (dtw_core D pen (np_zeros (shape0 D) (shape1 D)))) (shape0 D - 1) 0"
    unfolding dtw_core_nested [OF r c] by (rule counted_all [OF small order_refl])
  then have "if (a \<le> shape0 D - 1 \<or> (a = shape0 D - 1 + 1 \<and> b \<le> 0)) \<and> 1 \<le> a \<and> 1 \<le> b
        then 1 \<le> unat (cell (snd (dtw_core D pen (np_zeros (shape0 D) (shape1 D)))) a b)
           \<and> unat (cell (snd (dtw_core D pen (np_zeros (shape0 D) (shape1 D)))) a b) \<le> a + b
        else cell (snd (dtw_core D pen (np_zeros (shape0 D) (shape1 D)))) a b = 0"
    using a(2) b(2) by (rule counted_uptoD)
  moreover have "a \<le> shape0 D - 1" using a by simp
  ultimately have "1 \<le> unat (cell (snd (dtw_core D pen (np_zeros (shape0 D) (shape1 D)))) a b)"
    using a(1) b(1) by simp
  then show ?thesis by auto
qed

text \<open>
  Claim C6, as stated: for every matrix of shape at least \<open>1 x 1\<close>, gully in \<open>[0, 1)\<close> and
  penalty, the score is a float \<open>>= 0\<close> and the division by the path length is well
  defined. On \<open>[[1, 0], [1, 1]]\<close> the endpoint is \<open>(0, 1)\<close>, where cost and path length are
  both \<open>0\<close>: the score is \<open>nan\<close>, which is not \<open>>= 0\<close>.
\<close>

theorem dtw_score_zero_path_counterexample:
  "dtw (matrix_of [[1, 0], [1, 1]]) 0 0 = Inr NaN \<and> \<not> np_le (Finite 0) NaN"
  by code_simp

text \<open>
  Claim C6, amended: for a matrix of shape at least \<open>1 x 1\<close> with \<open>rows + cols <= 65536\<close>
  (no path length wraps around), a float gully in \<open>[0, 1)\<close> whose offset
  \<open>int(gully * min(rows, cols))\<close> is at least \<open>1\<close>, and every penalty, \<open>dtw\<close> returns a
  finite score \<open>>= 0\<close>: the endpoint lies outside the first row and the first column, the
  path length there is not zero, and the division is well defined.
\<close>

theorem dtw_score_nonneg:
  assumes r: "1 \<le> shape0 D" and c: "1 \<le> shape1 D"
    and small: "shape0 D + shape1 D \<le> 65536"
    and g0: "0 \<le> gully" and g1: "gully < 1" and gf: "fl64 gully = gully"
    and off: "1 \<le> py_int (fl64 (gully * of_nat (min (shape0 D) (shape1 D))))"
  shows "\<exists>i j q.
           dtw_endpoint (fst (dtw_core D penalty (np_zeros (shape0 D) (shape1 D)))) gully = Inr (i, j)
         \<and> 1 \<le> i \<and> i < shape0 D \<and> 1 \<le> j \<and> j < shape1 D
         \<and> cell (snd (dtw_core D penalty (np_zeros (shape0 D) (shape1 D)))) i j \<noteq> 0
         \<and> dtw D gully penalty = Inr (Finite q) \<and> 0 \<le> q \<and> np_le (Finite 0) (Finite q)"
proof -
  define D' where "D' = fst (dtw_core D penalty (np_zeros (shape0 D) (shape1 D)))"
  define P' where "P' = snd (dtw_core D penalty (np_zeros (shape0 D) (shape1 D)))"
  define g where "g = nat \<lfloor>fl64 (gully * of_nat (min (shape0 D) (shape1 D)))\<rfloor>"
  have sh: "shape0 D' = shape0 D" "shape1 D' = shape1 D" by (simp_all add: D'_def)
  have n: "1 \<le> min (shape0 D) (shape1 D)" using r c by simp
  have "py_int (fl64 (gully * of_nat (min (shape0 D) (shape1 D)))) = int g"
    unfolding g_def by (rule gully_offset(1) [OF n g0 g1 gf])
  then have g1': "1 \<le> g" using off by simp
  have gn: "g < min (shape0 D) (shape1 D)" unfolding g_def by (rule gully_offset(2) [OF n g0 g1 gf])
  from dtw_endpoint_char [of D' gully] r c g0 g1 gf
  obtain a b where ab:
    "first_min_at (\<lambda>k. cell D' k (shape1 D - 1)) g (shape0 D) a"
    "first_min_at (\<lambda>k. cell D' (shape0 D - 1) k) g (shape1 D) b"
    "dtw_endpoint D' gully =
       Inr (if unat (cell D' (shape0 D - 1) b) > unat (cell D' a (shape1 D - 1))
            then (a, shape1 D - 1) else (shape0 D - 1, b))"
    unfolding sh g_def by blast
  define i where "i = (if unat (cell D' (shape0 D - 1) b) > unat (cell D' a (shape1 D - 1)) then a else shape0 D - 1)"
  define j where "j = (if unat (cell D' (shape0 D - 1) b) > unat (cell D' a (shape1 D - 1)) then shape1 D - 1 else b)"
  have ep: "dtw_endpoint D' gully = Inr (i, j)" using ab(3) by (simp add: i_def j_def)
  have ar: "g \<le> a" "a < shape0 D" and br: "g \<le> b" "b < shape1 D"
    using ab(1,2) by (simp_all add: first_min_at_def)
  have ir: "1 \<le> i" "i < shape0 D" using ar g1' gn r by (auto simp add: i_def)
  have jr: "1 \<le> j" "j < shape1 D" using br g1' gn c by (auto simp add: j_def)
  have pl: "cell P' i j \<noteq> 0"
    unfolding P'_def by (rule dtw_core_path_length [OF small ir jr])
  then have pl': "unat (cell P' i j) \<noteq> 0" by (simp add: unat_zero_iff)
  have d: "dtw D gully penalty = Inr (np_div (unat (cell D' i j)) (unat (cell P' i j)))"
    unfolding dtw_def Let_def D'_def [symmetric] P'_def [symmetric] ep by simp
  from np_div_pos [OF pl', of "unat (cell D' i j)"] obtain q where
    q: "0 \<le> q" "np_div (unat (cell D' i j)) (unat (cell P' i j)) = Finite q" "np_le (Finite 0) (Finite q)"
    by blast
  from ep ir jr pl d q show ?thesis unfolding D'_def P'_def by auto
qed

theorem dtw_score_nonneg_witness:
  "dtw (matrix_of [[0, 5], [5, 1]]) (1 / 2) 0 = Inr (Finite 1)"
proof -
  have h1: "1 \<le> shape0 (matrix_of [[0, 5], [5, 1]])" by (simp add: matrix_of_def)
  have h2: "1 \<le> shape1 (matrix_of [[0, 5], [5, 1]])" by (simp add: matrix_of_def)
  have h3: "shape0 (matrix_of [[0, 5], [5, 1]]) + shape1 (matrix_of [[0, 5], [5, 1]]) \<le> 65536"
    by (simp add: matrix_of_def)
  have h4: "(0::rat) \<le> 1 / 2" by simp
  have h5: "(1::rat) / 2 < 1" by simp
  have h6: "fl64 (1 / 2) = 1 / 2" by code_simp
  have h7: "1 \<le> py_int (fl64 (1 / 2 * of_nat (min (shape0 (matrix_of [[0, 5], [5, 1]]))
                                                   (shape1 (matrix_of [[0, 5], [5, 1]])))))"
    by code_simp
  have e: "dtw (matrix_of [[0, 5], [5, 1]]) (1 / 2) 0 = Inr (Finite 1)" by code_simp
  from dtw_score_nonneg [OF h1 h2 h3 h4 h5 h6 h7, of 0] e show ?thesis by simp
qed

section \<open>Keogh envelopes and the Keogh bound on concrete inputs\<close>

text \<open>
  Claim C4: for a radius \<open>r >= 1\<close> the envelopes have the length of \<open>x\<close> and hold the
  greatest and the least entry of \<open>x\<close> over the positions \<open>i - r, ..., i + r\<close>, and a radius of
  at least the length of \<open>x\<close> gives the global maximum and minimum everywhere. The code
  passes \<open>r\<close> as the window size of the filters, so the window has \<open>r\<close> entries, not
  \<open>2 r + 1\<close>: with \<open>r = 1\<close> the envelopes of \<open>[1, 5, 2]\<close> are the sequence itself where the
  claim gives \<open>[5, 5, 5]\<close> and \<open>[1, 1, 2]\<close>, and with \<open>r = 4\<close> the envelopes of \<open>[1, 2, 3, 9]\<close>
  are not the global maximum and minimum.
\<close>

theorem keogh_envelopes_window_is_size:
  "keogh_envelopes [1, 5, 2] 1 = Inr ([1, 5, 2], [1, 5, 2])
   \<and> spec_envelope [1, 5, 2] 1 = ([5, 5, 5], [1, 1, 2])
   \<and> keogh_envelopes [1, 2, 3, 9] 4 = Inr ([2, 3, 9, 9], [1, 1, 1, 2])
   \<and> spec_envelope [1, 2, 3, 9] 4 = ([9, 9, 9, 9], [1, 1, 1, 1])"
  by code_simp

text \<open>
  Claim C1: the Keogh bound of the envelope of \<open>x\<close> against \<open>y\<close> never exceeds the score of
  \<open>dtw\<close> on their distance matrix with gully \<open>0\<close>. For \<open>x = [0, 0]\<close>, \<open>y = [1, 0]\<close>, radius
  \<open>1\<close> and penalty \<open>0\<close> the bound is \<open>1/2\<close> and the score is \<open>0\<close>.
\<close>

theorem lb_keogh_exceeds_dtw:
  "keogh_envelopes [0, 0] 1 = Inr ([0, 0], [0, 0])
   \<and> lb_keogh [0, 0] [0, 0] [1, 0] = Inr (Finite (1 / 2))
   \<and> dtw (int_dist [0, 0] [1, 0] (np_zeros 2 2)) 0 0 = Inr (Finite 0)
   \<and> \<not> np_le (Finite (1 / 2)) (Finite 0)"
  by code_simp

section \<open>The range of candidates and the loop of \<open>match_one_sequence\<close>\<close>

lemma searchsorted_loop_spec:
  assumes srt: "sorted a"
    and mono: "\<And>x y. x \<le> y \<Longrightarrow> P y \<Longrightarrow> P x"
    and P_def: "\<And>x. P x \<longleftrightarrow> (if right then x \<le> key else x < key)"
    and "lo \<le> hi" and "hi \<le> length a"
    and "\<forall>k < lo. P (a ! k)"
    and "\<forall>k. hi \<le> k \<and> k < length a \<longrightarrow> \<not> P (a ! k)"
  shows "lo \<le> searchsorted_loop right a key lo hi \<and> searchsorted_loop right a key lo hi \<le> hi
       \<and> (\<forall>k < searchsorted_loop right a key lo hi. P (a ! k))
       \<and> (\<forall>k. searchsorted_loop right a key lo hi \<le> k \<and> k < length a \<longrightarrow> \<not> P (a ! k))"
  using assms(4-7)
proof (induction "hi - lo" arbitrary: lo hi rule: less_induct)
  case less
  show ?case
  proof (cases "lo < hi")
    case False
    then have "searchsorted_loop right a key lo hi = lo"
      by (simp add: searchsorted_loop.simps)
    moreover have "lo = hi" using False less(2) by simp
    ultimately show ?thesis using less(4,5) by simp
  next
    case True
    define mid where "mid = lo + (hi - lo) div 2"
    have mid: "lo \<le> mid" "mid < hi" using True by (simp_all add: mid_def)
    have unf: "searchsorted_loop right a key lo hi =
                 (if (if right then a ! mid \<le> key else a ! mid < key)
                  then searchsorted_loop right a key (mid + 1) hi
                  else searchsorted_loop right a key lo mid)"
      using True searchsorted_loop.simps [of right a key lo hi]
      unfolding mid_def by (simp add: Let_def)
    show ?thesis
    proof (cases "P (a ! mid)")
      case pm: True
      have eq: "searchsorted_loop right a key lo hi = searchsorted_loop right a key (mid + 1) hi"
        using pm P_def [of "a ! mid"] unfolding unf by (auto split: if_splits)
      have below: "\<forall>k < mid + 1. P (a ! k)"
      proof (intro allI impI)
        fix k assume "k < mid + 1"
        then have "k \<le> mid" by simp
        then have "a ! k \<le> a ! mid"
          using srt mid less(3) by (simp add: sorted_nth_mono)
        then show "P (a ! k)" using pm mono by blast
      qed
      have IH: "mid + 1 \<le> searchsorted_loop right a key (mid + 1) hi
          \<and> searchsorted_loop right a key (mid + 1) hi \<le> hi
          \<and> (\<forall>k < searchsorted_loop right a key (mid + 1) hi. P (a ! k))
          \<and> (\<forall>k. searchsorted_loop right a key (mid + 1) hi \<le> k \<and> k < length a \<longrightarrow> \<not> P (a ! k))"
      proof (rule less(1))
        show "hi - (mid + 1) < hi - lo" using mid by simp
        show "mid + 1 \<le> hi" using mid by simp
        show "hi \<le> length a" by (rule less(3))
        show "\<forall>k < mid + 1. P (a ! k)" by (rule below)
        show "\<forall>k. hi \<le> k \<and> k < length a \<longrightarrow> \<not> P (a ! k)" by (rule less(5))
      qed
      then show ?thesis unfolding eq using mid by auto
    next
      case npm: False
      have eq: "searchsorted_loop right a key lo hi = searchsorted_loop right a key lo mid"
        using npm P_def [of "a ! mid"] unfolding unf by (auto split: if_splits)
      have above: "\<forall>k. mid \<le> k \<and> k < length a \<longrightarrow> \<not> P (a ! k)"
      proof (intro allI impI)
        fix k assume k: "mid \<le> k \<and> k < length a"
        then have "a ! mid \<le> a ! k"
          using srt by (simp add: sorted_nth_mono)
        then show "\<not> P (a ! k)" using npm mono by blast
      qed
      have IH: "lo \<le> searchsorted_loop right a key lo mid
          \<and> searchsorted_loop right a key lo mid \<le> mid
          \<and> (\<forall>k < searchsorted_loop right a key lo mid. P (a ! k))
          \<and> (\<forall>k. searchsorted_loop right a key lo mid \<le> k \<and> k < length a \<longrightarrow> \<not> P (a ! k))"
      proof (rule less(1))
        show "mid - lo < hi - lo" using mid by simp
        show "lo \<le> mid" using mid by simp
        show "mid \<le> length a" using mid less(3) by simp
        show "\<forall>k < lo. P (a ! k)" by (rule less(4))
        show "\<forall>k. mid \<le> k \<and> k < length a \<longrightarrow> \<not> P (a ! k)" by (rule above)
      qed
      then show ?thesis unfolding eq using mid by auto
    qed
  qed
qed

lemma lengths_as_floats:
  assumes "\<forall>x \<in> set a. \<bar>x\<bar> < 2 ^ 53"
  shows "map (\<lambda>x. fl64 (of_int x)) a = map of_int a"
  using assms by (intro map_cong refl) (simp add: fl64_of_int_exact)

lemma sorted_map_of_int: "sorted a \<Longrightarrow> sorted (map rat_of_int a)"
  by (induction a) simp_all

lemma searchsorted_left:
  assumes "sorted a" and "\<forall>x \<in> set a. \<bar>x\<bar> < 2 ^ 53"
  shows "searchsorted a key False \<le> length a
       \<and> (\<forall>k < searchsorted a key False. of_int (a ! k) < key)
       \<and> (\<forall>k. searchsorted a key False \<le> k \<and> k < length a \<longrightarrow> key \<le> of_int (a ! k))"
proof -
  have s: "sorted (map rat_of_int a)" using assms(1) by (rule sorted_map_of_int)
  have "searchsorted a key False = searchsorted_loop False (map of_int a) key 0 (length (map rat_of_int a))"
    by (simp add: searchsorted_def lengths_as_floats [OF assms(2)])
  then show ?thesis
    using searchsorted_loop_spec [of "map of_int a" "\<lambda>x. x < key" False key 0 "length (map rat_of_int a)", OF s]
    by (auto simp add: not_less)
qed

lemma searchsorted_right:
  assumes "sorted a" and "\<forall>x \<in> set a. \<bar>x\<bar> < 2 ^ 53"
  shows "searchsorted a key True \<le> length a
       \<and> (\<forall>k < searchsorted a key True. of_int (a ! k) \<le> key)
       \<and> (\<forall>k. searchsorted a key True \<le> k \<and> k < length a \<longrightarrow> key < of_int (a ! k))"
proof -
  have s: "sorted (map rat_of_int a)" using assms(1) by (rule sorted_map_of_int)
  have "searchsorted a key True = searchsorted_loop True (map of_int a) key 0 (length (map rat_of_int a))"
    by (simp add: searchsorted_def lengths_as_floats [OF assms(2)])
  then show ?thesis
    using searchsorted_loop_spec [of "map of_int a" "\<lambda>x. x \<le> key" True key 0 "length (map rat_of_int a)", OF s]
    by (auto simp add: not_le)
qed

lemma int_dist_shape:
  "shape0 (int_dist x y out) = shape0 out" "shape1 (int_dist x y out) = shape1 out"
proof -
  have inner: "\<And>Q s m ns. (\<And>s i j v. Q (set_cell s i j v) = Q s) \<Longrightarrow>
     Q (foldl (\<lambda>out n. set_cell out (u16_index m) (u16_index n)
                (bits_set_at (x ! u16_index m XOR y ! u16_index n))) s ns) = Q s"
    by (rule foldl_shape) simp
  show "shape0 (int_dist x y out) = shape0 out"
    unfolding int_dist_def
    by (subst foldl_shape [where P = shape0]) (simp_all add: inner [where Q = shape0])
  show "shape1 (int_dist x y out) = shape1 out"
    unfolding int_dist_def
    by (subst foldl_shape [where P = shape1]) (simp_all add: inner [where Q = shape1])
qed

lemma dtw_total:
  assumes "1 \<le> shape0 D" and "1 \<le> shape1 D" and "0 \<le> gully" and "gully < 1"
    and "fl64 gully = gully"
  shows "\<exists>score. dtw D gully penalty = Inr score"
proof -
  define D' where "D' = fst (dtw_core D penalty (np_zeros (shape0 D) (shape1 D)))"
  have sh: "1 \<le> shape0 D'" "1 \<le> shape1 D'" using assms(1,2) by (simp_all add: D'_def)
  from dtw_endpoint_char [OF sh assms(3,4,5)]
  obtain e where "dtw_endpoint D' gully = Inr e" by blast
  then show ?thesis
    unfolding dtw_def Let_def D'_def [symmetric] by (cases e) simp
qed

lemma keogh_envelopes_total:
  assumes "1 \<le> r"
  shows "\<exists>u l. keogh_envelopes x r = Inr (u, l) \<and> length u = length x \<and> length l = length x"
  using assms by (simp add: keogh_envelopes_def maximum_filter1d_def minimum_filter1d_def)

lemma lb_keogh_total:
  assumes "length u = length l"
  shows "\<exists>k. lb_keogh u l y = Inr (np_div k (min (length y) (length u)))"
  using assms by (auto simp add: lb_keogh_def Let_def min_def)

lemma np_less_np_div: "np_less (np_div k n) b \<Longrightarrow> n \<noteq> 0"
  by (auto simp add: np_div_def split: if_splits)

lemma np_less_PosInf: "n \<noteq> 0 \<Longrightarrow> np_less (np_div k n) PosInf"
  by (simp add: np_div_def)

lemma dtw_int_dist_total:
  assumes "query \<noteq> []" and "y \<noteq> []" and "0 \<le> gully" and "gully < 1"
    and "fl64 gully = gully"
  shows "\<exists>score. dtw (int_dist query y (np_zeros (length query) (length y))) gully penalty = Inr score"
proof (rule dtw_total)
  show "1 \<le> shape0 (int_dist query y (np_zeros (length query) (length y)))"
    using assms(1) by (simp add: int_dist_shape Suc_le_eq)
  show "1 \<le> shape1 (int_dist query y (np_zeros (length query) (length y)))"
    using assms(2) by (simp add: int_dist_shape Suc_le_eq)
  show "0 \<le> gully" by (rule assms(3))
  show "gully < 1" by (rule assms(4))
  show "fl64 gully = gully" by (rule assms(5))
qed

lemma match_loop_total:
  assumes "length u = length l" and "length u = length query" and "0 \<le> gully" and "gully < 1"
    and "fl64 gully = gully"
    and "\<forall>n \<in> set ns. n < length sequences"
  shows "\<exists>st'. match_loop query sequences u l gully penalty ns st = Inr st'"
  using assms(6)
proof (induction ns arbitrary: st)
  case Nil
  have "match_loop query sequences u l gully penalty [] st = Inr st" by simp
  then show ?case by blast
next
  case (Cons n ns)
  have n: "n < length sequences" using Cons.prems by simp
  have rest: "\<forall>n \<in> set ns. n < length sequences" using Cons.prems by simp
  obtain k where k: "lb_keogh u l (sequences ! n) = Inr (np_div k (min (length (sequences ! n)) (length u)))"
    using lb_keogh_total [OF assms(1)] by blast
  show ?case
  proof (cases "np_less (np_div k (min (length (sequences ! n)) (length u))) (fst st)")
    case False
    then show ?thesis using n k Cons.IH [OF rest, of st] by (simp add: Let_def)
  next
    case True
    then have "min (length (sequences ! n)) (length u) \<noteq> 0" by (rule np_less_np_div)
    then have ne: "query \<noteq> []" "sequences ! n \<noteq> []" using assms(2) by auto
    obtain score where score:
      "dtw (int_dist query (sequences ! n) (np_zeros (length query) (length (sequences ! n)))) gully penalty = Inr score"
      using dtw_int_dist_total [OF ne assms(3,4,5)] by blast
    show ?thesis
      using n k True score
        Cons.IH [OF rest, of "(if np_less score (fst st) then score else fst st,
                               fst (snd st) @ [n], snd (snd st) @ [score])"]
      by (simp add: Let_def)
  qed
qed

lemma match_loop_result:
  assumes "match_loop query sequences u l gully penalty ns (b, ms, ss) = Inr (b', ms', ss')"
  shows "\<exists>ms2 ss2. ms' = ms @ ms2 \<and> ss' = ss @ ss2 \<and> length ms2 = length ss2 \<and> set ms2 \<subseteq> set ns"
  using assms
proof (induction ns arbitrary: b ms ss)
  case Nil
  then show ?case by simp
next
  case (Cons n ns)
  from Cons.prems have n: "n < length sequences"
    by (auto simp add: Let_def split: if_splits)
  from Cons.prems n obtain kb where kb: "lb_keogh u l (sequences ! n) = Inr kb"
    by (cases "lb_keogh u l (sequences ! n)") (simp_all add: Let_def)
  show ?case
  proof (cases "np_less kb b")
    case False
    then have "match_loop query sequences u l gully penalty ns (b, ms, ss) = Inr (b', ms', ss')"
      using Cons.prems n kb by (simp add: Let_def)
    from Cons.IH [OF this] show ?thesis by auto
  next
    case True
    from Cons.prems n kb True obtain score where score:
      "dtw (int_dist query (sequences ! n) (np_zeros (length query) (length (sequences ! n)))) gully penalty = Inr score"
      by (cases "dtw (int_dist query (sequences ! n) (np_zeros (length query) (length (sequences ! n)))) gully penalty")
         (simp_all add: Let_def)
    have "match_loop query sequences u l gully penalty ns
            (if np_less score b then score else b, ms @ [n], ss @ [score]) = Inr (b', ms', ss')"
      using Cons.prems n kb True score by (simp add: Let_def)
    from Cons.IH [OF this] obtain ms2 ss2 where
      "ms' = (ms @ [n]) @ ms2" "ss' = (ss @ [score]) @ ss2" "length ms2 = length ss2" "set ms2 \<subseteq> set ns"
      by blast
    then have "ms' = ms @ (n # ms2) \<and> ss' = ss @ (score # ss2) \<and> length (n # ms2) = length (score # ss2)
               \<and> set (n # ms2) \<subseteq> set (n # ns)" by auto
    then show ?thesis by blast
  qed
qed

lemma argsort_perm: "mset (argsort ss) = mset [0..<length ss]"
proof -
  have "mset (argsort ss) = image_mset snd (mset (zip (map score_key ss) [0..<length ss]))"
    unfolding argsort_def by (simp only: mset_map mset_sort)
  also have "\<dots> = mset (map snd (zip (map score_key ss) [0..<length ss]))"
    by (simp only: mset_map)
  also have "map snd (zip (map score_key ss) [0..<length ss]) = [0..<length ss]"
    by (rule map_snd_zip) simp
  finally show ?thesis .
qed

lemma perm_nth:
  assumes "mset idx = mset [0..<length xs]"
  shows "mset (map (\<lambda>n. xs ! n) idx) = mset xs"
proof -
  have "mset (map (\<lambda>n. xs ! n) idx) = image_mset (\<lambda>n. xs ! n) (mset idx)"
    by (simp only: mset_map)
  also have "\<dots> = image_mset (\<lambda>n. xs ! n) (mset [0..<length xs])" by (simp only: assms)
  also have "\<dots> = mset (map (\<lambda>n. xs ! n) [0..<length xs])" by (simp only: mset_map)
  also have "map (\<lambda>n. xs ! n) [0..<length xs] = xs" by (rule map_nth)
  finally show ?thesis .
qed

lemma zip_map_nth:
  assumes "\<forall>n \<in> set idx. n < length xs" and "length xs = length ys"
  shows "zip (map (\<lambda>n. xs ! n) idx) (map (\<lambda>n. ys ! n) idx) = map (\<lambda>n. zip xs ys ! n) idx"
  using assms by (induction idx) simp_all

lemma match_one_sequence_result:
  assumes "match_one_sequence query query_length sequences lengths length_tolerance radius gully penalty
             = Inr (ms, ss)"
  shows "\<exists>u l b matches scores.
           keogh_envelopes query radius = Inr (u, l)
         \<and> match_loop query sequences u l gully penalty
               [fst (match_range lengths length_tolerance query_length)..<
                snd (match_range lengths length_tolerance query_length)] (PosInf, [], [])
             = Inr (b, matches, scores)
         \<and> length matches = length scores
         \<and> set matches \<subseteq> {fst (match_range lengths length_tolerance query_length)..<
                             snd (match_range lengths length_tolerance query_length)}
         \<and> mset ms = mset matches
         \<and> mset (zip ms ss) = mset (zip matches scores)"
proof -
  let ?r = "[fst (match_range lengths length_tolerance query_length)..<
             snd (match_range lengths length_tolerance query_length)]"
  obtain u l where ul: "keogh_envelopes query radius = Inr (u, l)"
    using assms by (cases "keogh_envelopes query radius") (auto simp add: match_one_sequence_def Let_def)
  obtain b matches scores where loop:
    "match_loop query sequences u l gully penalty ?r (PosInf, [], []) = Inr (b, matches, scores)"
    using assms ul
    by (cases "match_loop query sequences u l gully penalty ?r (PosInf, [], [])")
       (auto simp add: match_one_sequence_def Let_def)
  have ms: "ms = map (\<lambda>n. matches ! n) (argsort scores)"
    and ss: "ss = map (\<lambda>n. scores ! n) (argsort scores)"
    using assms ul loop by (simp_all add: match_one_sequence_def Let_def)
  from match_loop_result [OF loop]
  have len: "length matches = length scores" and sub: "set matches \<subseteq> set ?r" by auto
  have p1: "mset (argsort scores) = mset [0..<length matches]"
    unfolding len by (rule argsort_perm)
  have p2: "mset (argsort scores) = mset [0..<length (zip matches scores)]"
    using argsort_perm [of scores] len by simp
  have "set (argsort scores) = set [0..<length scores]"
    by (rule mset_eq_setD) (rule argsort_perm)
  then have rng: "\<forall>n \<in> set (argsort scores). n < length matches" using len by simp
  have z: "zip ms ss = map (\<lambda>n. zip matches scores ! n) (argsort scores)"
    unfolding ms ss by (rule zip_map_nth [OF rng len])
  have m1: "mset ms = mset matches" unfolding ms by (rule perm_nth [OF p1])
  have m2: "mset (zip ms ss) = mset (zip matches scores)" unfolding z by (rule perm_nth [OF p2])
  from ul loop len sub m1 m2 show ?thesis by auto
qed

text \<open>
  Claim C5, as stated: when \<open>lengths\<close> is sorted in ascending order, every index of the
  returned list of matches has its length between \<open>(1 - length_tolerance) * query_length\<close>
  and \<open>(1 + length_tolerance) * query_length\<close>. The search compares floats: the length
  \<open>2 ** 53 + 3\<close> is converted to \<open>2 ** 53 + 4\<close>, so with the query length \<open>2 ** 53 + 4\<close>
  and the tolerance \<open>0\<close> the only candidate is in the range and is returned, although its
  length is below the lower bound.
\<close>

theorem match_one_sequence_float_length_counterexample:
  "sorted [9007199254740995 :: int]
   \<and> fl64 (fl64 (1 - 0) * 9007199254740996) = 9007199254740996
   \<and> match_range [9007199254740995] 0 9007199254740996 = (0, 1)
   \<and> match_one_sequence [0] 9007199254740996 [[0]] [9007199254740995] 0 1 0 0 = Inr ([0], [NaN])
   \<and> \<not> (9007199254740996 :: rat) \<le> of_int ([9007199254740995] ! 0)"
  by code_simp

text \<open>
  Claim C5, amended: when \<open>lengths\<close> is sorted in ascending order and its entries are below
  \<open>2 ** 53\<close> in magnitude, the binary searches return as \<open>start\<close> the first position whose
  length is at least the lower key and as \<open>end\<close> the first position whose length is above
  the upper key (the length of the list when there is none), the keys being
  \<open>(1 - length_tolerance) * query_length\<close> and \<open>(1 + length_tolerance) * query_length\<close> as
  the floats compute them; every index of the returned list of matches lies in
  \<open>[start, end)\<close> and has its length between the two keys.
\<close>

theorem match_one_sequence_length_filter:
  assumes "sorted lengths"
    and "\<forall>x \<in> set lengths. \<bar>x\<bar> < 2 ^ 53"
    and "match_one_sequence query query_length sequences lengths length_tolerance radius gully penalty
           = Inr (ms, ss)"
  shows "fst (match_range lengths length_tolerance query_length) \<le> length lengths
       \<and> (\<forall>k < fst (match_range lengths length_tolerance query_length).
             of_int (lengths ! k) < fl64 (fl64 (1 - length_tolerance) * query_length))
       \<and> (\<forall>k. fst (match_range lengths length_tolerance query_length) \<le> k \<and> k < length lengths
             \<longrightarrow> fl64 (fl64 (1 - length_tolerance) * query_length) \<le> of_int (lengths ! k))
       \<and> snd (match_range lengths length_tolerance query_length) \<le> length lengths
       \<and> (\<forall>k < snd (match_range lengths length_tolerance query_length).
             of_int (lengths ! k) \<le> fl64 (fl64 (1 + length_tolerance) * query_length))
       \<and> (\<forall>k. snd (match_range lengths length_tolerance query_length) \<le> k \<and> k < length lengths
             \<longrightarrow> fl64 (fl64 (1 + length_tolerance) * query_length) < of_int (lengths ! k))
       \<and> (\<forall>n \<in> set ms. fst (match_range lengths length_tolerance query_length) \<le> n
             \<and> n < snd (match_range lengths length_tolerance query_length)
             \<and> fl64 (fl64 (1 - length_tolerance) * query_length) \<le> of_int (lengths ! n)
             \<and> of_int (lengths ! n) \<le> fl64 (fl64 (1 + length_tolerance) * query_length))"
proof -
  define start where "start = fst (match_range lengths length_tolerance query_length)"
  define end' where "end' = snd (match_range lengths length_tolerance query_length)"
  define lo where "lo = fl64 (fl64 (1 - length_tolerance) * query_length)"
  define hi where "hi = fl64 (fl64 (1 + length_tolerance) * query_length)"
  have s: "start = searchsorted lengths lo False"
    and e: "end' = searchsorted lengths hi True"
    by (simp_all add: start_def end'_def match_range_def lo_def hi_def)
  have L: "start \<le> length lengths"
    "\<forall>k < start. of_int (lengths ! k) < lo"
    "\<forall>k. start \<le> k \<and> k < length lengths \<longrightarrow> lo \<le> of_int (lengths ! k)"
    unfolding s using searchsorted_left [OF assms(1,2)] by blast+
  have R: "end' \<le> length lengths"
    "\<forall>k < end'. of_int (lengths ! k) \<le> hi"
    "\<forall>k. end' \<le> k \<and> k < length lengths \<longrightarrow> hi < of_int (lengths ! k)"
    unfolding e using searchsorted_right [OF assms(1,2)] by blast+
  from match_one_sequence_result [OF assms(3)] obtain matches where
    sub: "set matches \<subseteq> {start..<end'}" and perm: "mset ms = mset matches"
    unfolding start_def end'_def by blast
  have "set ms = set matches" using perm by (rule mset_eq_setD)
  then have in_range: "\<forall>n \<in> set ms. start \<le> n \<and> n < end'" using sub by auto
  have M: "\<forall>n \<in> set ms. start \<le> n \<and> n < end'
             \<and> lo \<le> of_int (lengths ! n) \<and> of_int (lengths ! n) \<le> hi"
  proof
    fix n assume "n \<in> set ms"
    then have n: "start \<le> n" "n < end'" using in_range by auto
    then have "n < length lengths" using R(1) by simp
    then show "start \<le> n \<and> n < end' \<and> lo \<le> of_int (lengths ! n) \<and> of_int (lengths ! n) \<le> hi"
      using n L(3) R(2) by simp
  qed
  from L R M show ?thesis unfolding start_def end'_def lo_def hi_def by blast
qed

theorem match_one_sequence_length_filter_witness:
  "fst (match_range [1, 2, 3] (1 / 2) 2) \<le> length [1, 2, 3 :: int]
   \<and> match_one_sequence [0, 0] 2 [[1], [1, 0], [0, 0, 0]] [1, 2, 3] (1 / 2) 1 0 0
       = Inr ([1, 0], [Finite 0, PosInf])"
proof -
  have h1: "sorted [1, 2, 3 :: int]" by simp
  have h2: "\<forall>x \<in> set [1, 2, 3 :: int]. \<bar>x\<bar> < 2 ^ 53" by simp
  have e: "match_one_sequence [0, 0] 2 [[1], [1, 0], [0, 0, 0]] [1, 2, 3] (1 / 2) 1 0 0
             = Inr ([1, 0], [Finite 0, PosInf])" by code_simp
  have "fst (match_range [1, 2, 3] (1 / 2) 2) \<le> length [1, 2, 3 :: int]"
    using match_one_sequence_length_filter [OF h1 h2 e] by (rule conjunct1)
  then show ?thesis using e by (rule conjI)
qed

text \<open>
  Claim C9, as stated: a call that violates the preconditions (lengths not ascending, a
  tolerance or a gully out of range, an empty sequence) fails with an error before any
  computation. The function has no validation: with the lengths \<open>[2, 1]\<close>, the tolerance
  \<open>5\<close>, the gully \<open>-1/2\<close> and an empty second candidate, it searches the range \<open>[0, 2)\<close>,
  aligns the first candidate and returns \<open>([0], [0.0])\<close>.
\<close>

theorem match_one_sequence_unvalidated_counterexample:
  "\<not> sorted [2, 1 :: int] \<and> \<not> (5 :: rat) \<le> 1 \<and> \<not> (0 :: rat) \<le> - (1 / 2)
   \<and> match_range [2, 1] 5 2 = (0, 2)
   \<and> match_one_sequence [0, 0] 2 [[0, 0], []] [2, 1] 5 1 (- (1 / 2)) 0 = Inr ([0], [Finite 0])"
  by code_simp

text \<open>
  Claim C9, amended: the function checks none of its arguments. For a radius of at least
  one, a non-empty query, a float gully in \<open>[0, 1)\<close> and a range that ends inside the list
  of sequences, it returns its two lists without raising, whatever the order of the
  lengths, the tolerance, and the candidates (empty ones included).
\<close>

theorem match_one_sequence_total:
  assumes "1 \<le> radius" and "query \<noteq> []"
    and "0 \<le> gully" and "gully < 1" and "fl64 gully = gully"
    and "snd (match_range lengths length_tolerance query_length) \<le> length sequences"
  shows "\<exists>ms ss. match_one_sequence query query_length sequences lengths length_tolerance
                    radius gully penalty = Inr (ms, ss)"
proof -
  let ?r = "[fst (match_range lengths length_tolerance query_length)..<
             snd (match_range lengths length_tolerance query_length)]"
  obtain u l where ul: "keogh_envelopes query radius = Inr (u, l)"
    "length u = length query" "length l = length query"
    using keogh_envelopes_total [OF assms(1)] by blast
  have rng: "\<forall>n \<in> set ?r. n < length sequences" using assms(6) by simp
  have ll: "length u = length l" using ul(2,3) by simp
  obtain st where st: "match_loop query sequences u l gully penalty ?r (PosInf, [], []) = Inr st"
    using match_loop_total [OF ll ul(2) assms(3,4,5) rng, of penalty "(PosInf, [], [])"] by blast
  show ?thesis using ul(1) st
    by (cases st) (simp add: match_one_sequence_def Let_def)
qed

theorem match_one_sequence_total_witness:
  "match_one_sequence [1, 2] 2 [[1], [3, 3]] [2, 1] 5 1 0 0 = Inr ([1, 0], [PosInf, NaN])"
proof -
  have h1: "(1 :: int) \<le> 1" by simp
  have h2: "[1, 2 :: u16] \<noteq> []" by simp
  have h3: "(0 :: rat) \<le> 0" by simp
  have h4: "(0 :: rat) < 1" by simp
  have h5: "fl64 0 = 0" by code_simp
  have h6: "snd (match_range [2, 1] 5 2) \<le> length [[1], [3, 3 :: u16]]" by code_simp
  have e: "match_one_sequence [1, 2] 2 [[1], [3, 3]] [2, 1] 5 1 0 0 = Inr ([1, 0], [PosInf, NaN])"
    by code_simp
  from match_one_sequence_total [OF h1 h2 h3 h4 h5 h6, of 0] e show ?thesis by simp
qed

text \<open>
  Claim C10, as stated: when the range \<open>[start, end)\<close> is not empty, the candidate \<open>start\<close>
  is always aligned and contributes one entry, the Keogh bound being always finite. For an
  empty candidate the bound is \<open>0 / 0.0\<close>, which is \<open>nan\<close>, and \<open>nan < inf\<close> is false: with
  the query \<open>[1]\<close> of length \<open>1\<close>, the tolerance \<open>1\<close> and the candidates \<open>[]\<close> and \<open>[1]\<close> of
  lengths \<open>0\<close> and \<open>1\<close>, the range is \<open>[0, 2)\<close> and the returned matches are \<open>[1]\<close>.
\<close>

theorem match_one_sequence_empty_first_counterexample:
  "match_range [0, 1] 1 1 = (0, 2)
   \<and> keogh_envelopes [1] 1 = Inr ([1], [1])
   \<and> lb_keogh [1] [1] [] = Inr NaN
   \<and> \<not> np_less NaN PosInf
   \<and> match_one_sequence [1] 1 [[], [1]] [0, 1] 1 1 0 0 = Inr ([1], [NaN])"
  by code_simp

text \<open>
  Claim C10, amended: for a radius of at least one, a non-empty query, a float gully in
  \<open>[0, 1)\<close>, a non-empty range \<open>[start, end)\<close> that ends inside the list of sequences, and a
  non-empty candidate \<open>start\<close>, the function returns lists of the same length in which the
  index \<open>start\<close> occurs exactly once, paired with the score of \<open>dtw\<close> on the distance matrix
  of the query and that candidate.
\<close>

theorem match_one_sequence_first_candidate:
  assumes "1 \<le> radius" and "query \<noteq> []"
    and "0 \<le> gully" and "gully < 1" and "fl64 gully = gully"
    and "fst (match_range lengths length_tolerance query_length)
           < snd (match_range lengths length_tolerance query_length)"
    and "snd (match_range lengths length_tolerance query_length) \<le> length sequences"
    and "sequences ! fst (match_range lengths length_tolerance query_length) \<noteq> []"
  shows "\<exists>ms ss score.
           match_one_sequence query query_length sequences lengths length_tolerance
             radius gully penalty = Inr (ms, ss)
         \<and> length ss = length ms
         \<and> dtw (int_dist query (sequences ! fst (match_range lengths length_tolerance query_length))
                  (np_zeros (length query)
                     (length (sequences ! fst (match_range lengths length_tolerance query_length)))))
               gully penalty = Inr score
         \<and> (fst (match_range lengths length_tolerance query_length), score) \<in> set (zip ms ss)
         \<and> count_list ms (fst (match_range lengths length_tolerance query_length)) = 1"
proof -
  define start where "start = fst (match_range lengths length_tolerance query_length)"
  define end' where "end' = snd (match_range lengths length_tolerance query_length)"
  have se: "start < end'" using assms(6) by (simp add: start_def end'_def)
  have el: "end' \<le> length sequences" using assms(7) by (simp add: end'_def)
  have y: "sequences ! start \<noteq> []" using assms(8) by (simp add: start_def)
  have r: "[start..<end'] = start # [Suc start..<end']" using se by (rule upt_conv_Cons)
  obtain u l where ul: "keogh_envelopes query radius = Inr (u, l)"
    "length u = length query" "length l = length query"
    using keogh_envelopes_total [OF assms(1)] by blast
  have ll: "length u = length l" using ul(2,3) by simp
  obtain k where k: "lb_keogh u l (sequences ! start)
                       = Inr (np_div k (min (length (sequences ! start)) (length u)))"
    using lb_keogh_total [OF ll] by blast
  have "min (length (sequences ! start)) (length u) \<noteq> 0" using y assms(2) ul(2) by simp
  then have less: "np_less (np_div k (min (length (sequences ! start)) (length u))) PosInf"
    by (rule np_less_PosInf)
  obtain score where score:
    "dtw (int_dist query (sequences ! start) (np_zeros (length query) (length (sequences ! start))))
       gully penalty = Inr score"
    using dtw_int_dist_total [OF assms(2) y assms(3,4,5)] by blast
  define b1 where "b1 = (if np_less score PosInf then score else PosInf)"
  have rng: "\<forall>n \<in> set [Suc start..<end']. n < length sequences" using el by simp
  obtain st where st:
    "match_loop query sequences u l gully penalty [Suc start..<end'] (b1, [start], [score]) = Inr st"
    using match_loop_total [OF ll ul(2) assms(3,4,5) rng, of penalty "(b1, [start], [score])"] by blast
  obtain b matches scores where st_eq: "st = (b, matches, scores)" by (cases st) auto
  have sl: "start < length sequences" using se el by simp
  have loop: "match_loop query sequences u l gully penalty [start..<end'] (PosInf, [], [])
                = Inr (b, matches, scores)"
    unfolding r using sl k less score st st_eq by (simp add: Let_def b1_def)
  from match_loop_result [OF st [unfolded st_eq]] obtain ms2 ss2 where tail:
    "matches = [start] @ ms2" "scores = [score] @ ss2" "length ms2 = length ss2"
    "set ms2 \<subseteq> set [Suc start..<end']" by blast
  have notin: "start \<notin> set ms2" using tail(4) by auto
  have len: "length matches = length scores" using tail by simp
  define ms where "ms = map (\<lambda>n. matches ! n) (argsort scores)"
  define ss where "ss = map (\<lambda>n. scores ! n) (argsort scores)"
  have res: "match_one_sequence query query_length sequences lengths length_tolerance
               radius gully penalty = Inr (ms, ss)"
    using ul(1) loop
    by (simp add: match_one_sequence_def Let_def start_def end'_def ms_def ss_def)
  from match_one_sequence_result [OF res] obtain u' l' b' matches' scores' where R:
    "keogh_envelopes query radius = Inr (u', l')"
    "match_loop query sequences u' l' gully penalty [start..<end'] (PosInf, [], [])
       = Inr (b', matches', scores')"
    "mset ms = mset matches'" "mset (zip ms ss) = mset (zip matches' scores')"
    unfolding start_def end'_def by blast
  have same: "matches' = matches" "scores' = scores" using R(1,2) ul(1) loop by simp_all
  have c: "count_list ms start = 1"
  proof -
    have "count_list ms start = count (mset ms) start" by (rule count_mset [symmetric])
    also have "\<dots> = count (mset matches) start" using R(3) same by simp
    also have "\<dots> = 1" using tail(1) notin by (simp add: count_eq_zero_iff)
    finally show ?thesis .
  qed
  have "(start, score) \<in> set (zip matches scores)" using tail(1,2) by simp
  then have "(start, score) \<in># mset (zip matches scores)" by simp
  then have "(start, score) \<in># mset (zip ms ss)" using R(4) same by simp
  then have z: "(start, score) \<in> set (zip ms ss)" by simp
  have l2: "length ss = length ms" by (simp add: ms_def ss_def)
  from res l2 score z c show ?thesis unfolding start_def by blast
qed

theorem match_one_sequence_first_candidate_witness:
  "match_one_sequence [1, 2] 2 [[1, 3], [3, 3, 0]] [2, 3] (1 / 2) 1 0 0 = Inr ([0], [Finite 1])"
proof -
  have h1: "(1 :: int) \<le> 1" by simp
  have h2: "[1, 2 :: u16] \<noteq> []" by simp
  have h3: "(0 :: rat) \<le> 0" by simp
  have h4: "(0 :: rat) < 1" by simp
  have h5: "fl64 0 = 0" by code_simp
  have h6: "fst (match_range [2, 3] (1 / 2) 2) < snd (match_range [2, 3] (1 / 2) 2)" by code_simp
  have h7: "snd (match_range [2, 3] (1 / 2) 2) \<le> length [[1, 3], [3, 3, 0 :: u16]]" by code_simp
  have h8: "[[1, 3], [3, 3, 0 :: u16]] ! fst (match_range [2, 3] (1 / 2) 2) \<noteq> []" by code_simp
  have e: "match_one_sequence [1, 2] 2 [[1, 3], [3, 3, 0]] [2, 3] (1 / 2) 1 0 0
             = Inr ([0], [Finite 1])" by code_simp
  from match_one_sequence_first_candidate [OF h1 h2 h3 h4 h5 h6 h7 h8, of 0] e show ?thesis by simp
qed

end
